theory Spec2Isabelle
  imports Complex_Main
begin

section \<open>Constants (src/lib/constants.mjs)\<close>

definition headerSize :: nat where "headerSize = 80"
definition blockSize :: nat where "blockSize = 2880"
definition keySize :: nat where "keySize = 8"
definition valueSize :: nat where "valueSize = 20"

definition QUOTE :: char where "QUOTE = CHR 0x27"
definition SLASH :: char where "SLASH = CHR ''/''"

section \<open>Host strings and buffers\<close>

text \<open>
  A JavaScript string is modelled by the list of its code units, restricted to the
  code units below 256 (Latin-1), so that a string is a \<^typ>\<open>string\<close> and a Buffer
  is the list of its bytes, also a \<^typ>\<open>string\<close>.

  The encoding \<open>ENC = 'ASCII'\<close> of header.mjs: Node's Buffer writes a string in this
  encoding as Latin-1 (the low byte of each code unit) and, when it decodes bytes to
  a string, clears the highest bit of every byte first.
\<close>

definition ascii7 :: "char \<Rightarrow> char" where
  "ascii7 c = Char (digit0 c) (digit1 c) (digit2 c) (digit3 c)
                   (digit4 c) (digit5 c) (digit6 c) False"

definition is_ascii :: "char \<Rightarrow> bool" where
  "is_ascii c = (\<not> digit7 c)"

text \<open>\<open>buf.subarray(start, end).toString('ASCII')\<close>\<close>

definition subarray :: "nat \<Rightarrow> nat \<Rightarrow> string \<Rightarrow> string" where
  "subarray start end' buf = take (end' - start) (drop start buf)"

definition Buffer_toString :: "string \<Rightarrow> string" where
  "Buffer_toString buf = map ascii7 buf"

text \<open>
  White space of \<open>trim\<close>, \<open>trimStart\<close>, \<open>trimEnd\<close> and of \<open>Number\<close>: TAB, LF, VT, FF,
  CR, SP and NBSP are the ones below 256.
\<close>

definition is_ws :: "char \<Rightarrow> bool" where
  "is_ws c = (c \<in> {CHR 0x09, CHR 0x0A, CHR 0x0B, CHR 0x0C, CHR 0x0D, CHR 0x20, CHR 0xA0})"

definition trimStart :: "string \<Rightarrow> string" where
  "trimStart s = dropWhile is_ws s"

definition trimEnd :: "string \<Rightarrow> string" where
  "trimEnd s = rev (dropWhile is_ws (rev s))"

definition trim :: "string \<Rightarrow> string" where
  "trim s = trimStart (trimEnd s)"

definition padEnd :: "nat \<Rightarrow> string \<Rightarrow> string" where
  "padEnd n s = s @ replicate (n - length s) (CHR '' '')"

definition padStart :: "nat \<Rightarrow> string \<Rightarrow> string" where
  "padStart n s = replicate (n - length s) (CHR '' '') @ s"

text \<open>\<open>s.substring(a, b)\<close>: both indices are clamped to the length and swapped when
  \<open>a > b\<close>; \<open>s.substring(a)\<close> is \<open>drop a s\<close>.\<close>

definition substring :: "nat \<Rightarrow> nat \<Rightarrow> string \<Rightarrow> string" where
  "substring a b s =
     (let a' = min a (length s); b' = min b (length s)
      in take (max a' b' - min a' b') (drop (min a' b') s))"

definition startsWith :: "char \<Rightarrow> string \<Rightarrow> bool" where
  "startsWith c s = (case s of [] \<Rightarrow> False | x # _ \<Rightarrow> x = c)"

definition endsWith :: "char \<Rightarrow> string \<Rightarrow> bool" where
  "endsWith c s = (s \<noteq> [] \<and> last s = c)"

text \<open>\<open>s.indexOf(c, from)\<close>: the first index \<open>\<ge> from\<close> that holds \<open>c\<close>, or \<open>-1\<close>.\<close>

fun index_from :: "char \<Rightarrow> string \<Rightarrow> nat \<Rightarrow> int" where
  "index_from c [] i = -1"
| "index_from c (x # xs) i = (if x = c then int i else index_from c xs (Suc i))"

definition indexOf :: "char \<Rightarrow> nat \<Rightarrow> string \<Rightarrow> int" where
  "indexOf c from s = index_from c (drop from s) from"

text \<open>
  \<open>toUpperCase\<close> on the letters \<open>a\<close> to \<open>z\<close>. Upper-casing of code units outside ASCII is
  not modelled (they are left as they are), so every statement below that depends on
  \<open>toUpperCase\<close> is about ASCII text.
\<close>

definition upper_char :: "char \<Rightarrow> char" where
  "upper_char c =
     (let n = (of_char c :: nat) in if 97 \<le> n \<and> n \<le> 122 then char_of (n - 32) else c)"

definition toUpperCase :: "string \<Rightarrow> string" where
  "toUpperCase s = map upper_char s"

text \<open>\<open>arg.replace(/'/g, "''")\<close> and \<open>s.replace(/''/g, QUOTE)\<close>: the second replaces
  the pairs found from left to right, without overlap.\<close>

fun double_quotes :: "string \<Rightarrow> string" where
  "double_quotes [] = []"
| "double_quotes (c # s) =
     (if c = QUOTE then QUOTE # QUOTE # double_quotes s else c # double_quotes s)"

fun undouble_quotes :: "string \<Rightarrow> string" where
  "undouble_quotes [] = []"
| "undouble_quotes [c] = [c]"
| "undouble_quotes (c # d # s) =
     (if c = QUOTE \<and> d = QUOTE then QUOTE # undouble_quotes s
      else c # undouble_quotes (d # s))"

section \<open>Host numbers\<close>

text \<open>
  A JavaScript Number is modelled by an exact rational, by NaN or by an infinity.
  Arithmetic is exact: the rounding of binary floating point is outside the model, and
  so is the sign of zero. A finite Number stands for the rational that its canonical
  text denotes.
\<close>

datatype number = Fin rat | NaN | PosInf | NegInf

definition num_neg :: "number \<Rightarrow> number" where
  "num_neg x = (case x of Fin r \<Rightarrow> Fin (- r) | NaN \<Rightarrow> NaN | PosInf \<Rightarrow> NegInf | NegInf \<Rightarrow> PosInf)"

definition num_abs :: "number \<Rightarrow> number" where
  "num_abs x = (case x of Fin r \<Rightarrow> Fin \<bar>r\<bar> | NaN \<Rightarrow> NaN | PosInf \<Rightarrow> PosInf | NegInf \<Rightarrow> PosInf)"

definition num_sign :: "number \<Rightarrow> int" where
  "num_sign x = (case x of Fin r \<Rightarrow> sgn (if r < 0 then -1 else if r = 0 then 0 else 1)
                 | NaN \<Rightarrow> 0 | PosInf \<Rightarrow> 1 | NegInf \<Rightarrow> -1)"

definition inf_of_sign :: "int \<Rightarrow> number" where
  "inf_of_sign s = (if s = 0 then NaN else if 0 < s then PosInf else NegInf)"

definition num_mult :: "number \<Rightarrow> number \<Rightarrow> number" where
  "num_mult x y =
     (case (x, y) of
        (Fin a, Fin b) \<Rightarrow> Fin (a * b)
      | (NaN, _) \<Rightarrow> NaN
      | (_, NaN) \<Rightarrow> NaN
      | _ \<Rightarrow> inf_of_sign (num_sign x * num_sign y))"

definition num_div :: "number \<Rightarrow> number \<Rightarrow> number" where
  "num_div x y =
     (case (x, y) of
        (Fin a, Fin b) \<Rightarrow> if b = 0 then inf_of_sign (num_sign x) else Fin (a / b)
      | (NaN, _) \<Rightarrow> NaN
      | (_, NaN) \<Rightarrow> NaN
      | (Fin a, _) \<Rightarrow> Fin 0
      | (_, Fin b) \<Rightarrow> if b < 0 then num_neg x else x
      | _ \<Rightarrow> NaN)"

definition num_add :: "number \<Rightarrow> number \<Rightarrow> number" where
  "num_add x y =
     (case (x, y) of
        (Fin a, Fin b) \<Rightarrow> Fin (a + b)
      | (NaN, _) \<Rightarrow> NaN
      | (_, NaN) \<Rightarrow> NaN
      | (Fin a, _) \<Rightarrow> y
      | (_, Fin b) \<Rightarrow> x
      | _ \<Rightarrow> if x = y then x else NaN)"

definition num_ceil :: "number \<Rightarrow> number" where
  "num_ceil x = (case x of Fin r \<Rightarrow> Fin (of_int \<lceil>r\<rceil>) | _ \<Rightarrow> x)"

text \<open>\<open>x < y\<close>; \<open>x > y\<close> is \<open>num_less y x\<close>. A comparison with NaN is false.\<close>

definition num_less :: "number \<Rightarrow> number \<Rightarrow> bool" where
  "num_less x y =
     (case (x, y) of
        (Fin a, Fin b) \<Rightarrow> a < b
      | (NaN, _) \<Rightarrow> False
      | (_, NaN) \<Rightarrow> False
      | (NegInf, _) \<Rightarrow> y \<noteq> NegInf
      | (_, PosInf) \<Rightarrow> x \<noteq> PosInf
      | _ \<Rightarrow> False)"

text \<open>\<open>x <= y\<close>\<close>

definition num_le :: "number \<Rightarrow> number \<Rightarrow> bool" where
  "num_le x y = (x \<noteq> NaN \<and> y \<noteq> NaN \<and> \<not> num_less y x)"

definition isInteger :: "number \<Rightarrow> bool" where
  "isInteger x = (case x of Fin r \<Rightarrow> r = of_int \<lfloor>r\<rfloor> | _ \<Rightarrow> False)"

subsection \<open>Decimal digits\<close>

definition is_digit :: "char \<Rightarrow> bool" where
  "is_digit c = (48 \<le> (of_char c :: nat) \<and> (of_char c :: nat) \<le> 57)"

definition digit_char :: "nat \<Rightarrow> char" where
  "digit_char d = char_of (48 + d)"

definition digit_val :: "char \<Rightarrow> nat" where
  "digit_val c = of_char c - 48"

fun dec :: "nat \<Rightarrow> string" where
  "dec n = (if n < 10 then [digit_char n] else dec (n div 10) @ [digit_char (n mod 10)])"

declare dec.simps [simp del]

definition digits_value :: "string \<Rightarrow> nat" where
  "digits_value s = foldl (\<lambda>a c. 10 * a + digit_val c) 0 s"

subsection \<open>\<open>Number(s)\<close>: a string to a number\<close>

text \<open>
  White space is trimmed; the empty text is 0; a text is a decimal literal with an
  optional sign (digits, an optional fraction, an optional exponent, or
  \<open>Infinity\<close>), or an unsigned literal with the prefix \<open>0x\<close>, \<open>0o\<close> or \<open>0b\<close>; anything
  else is NaN.
\<close>

definition digits_opt :: "string \<Rightarrow> nat option" where
  "digits_opt s = (if s \<noteq> [] \<and> list_all is_digit s then Some (digits_value s) else None)"

definition parse_exponent :: "string \<Rightarrow> int option" where
  "parse_exponent s =
     (case s of
        [] \<Rightarrow> Some 0
      | c # t \<Rightarrow>
          if c = CHR ''e'' \<or> c = CHR ''E'' then
            (case t of
               [] \<Rightarrow> None
             | d # u \<Rightarrow>
                 if d = CHR ''+'' then map_option int (digits_opt u)
                 else if d = CHR ''-'' then map_option (\<lambda>n. - int n) (digits_opt u)
                 else map_option int (digits_opt t))
          else None)"

definition pow10 :: "int \<Rightarrow> rat" where
  "pow10 e = (if 0 \<le> e then 10 ^ nat e else 1 / 10 ^ nat (- e))"

definition parse_unsigned_decimal :: "string \<Rightarrow> number" where
  "parse_unsigned_decimal s =
     (if s = ''Infinity'' then PosInf
      else
        let ip = takeWhile is_digit s;
            r1 = dropWhile is_digit s;
            fp = (case r1 of [] \<Rightarrow> [] | c # t \<Rightarrow> if c = CHR ''.'' then takeWhile is_digit t else []);
            r2 = (case r1 of [] \<Rightarrow> [] | c # t \<Rightarrow> if c = CHR ''.'' then dropWhile is_digit t else r1)
        in if ip = [] \<and> fp = [] then NaN
           else (case parse_exponent r2 of
                   None \<Rightarrow> NaN
                 | Some e \<Rightarrow> Fin (of_nat (digits_value (ip @ fp)) * pow10 (e - int (length fp)))))"

definition radix_digit :: "char \<Rightarrow> nat option" where
  "radix_digit c =
     (let n = (of_char c :: nat)
      in if 48 \<le> n \<and> n \<le> 57 then Some (n - 48)
         else if 97 \<le> n \<and> n \<le> 102 then Some (n - 87)
         else if 65 \<le> n \<and> n \<le> 70 then Some (n - 55)
         else None)"

definition parse_radix :: "nat \<Rightarrow> string \<Rightarrow> number" where
  "parse_radix b s =
     (if s \<noteq> [] \<and> list_all (\<lambda>c. case radix_digit c of None \<Rightarrow> False | Some d \<Rightarrow> d < b) s
      then Fin (of_nat (foldl (\<lambda>a c. b * a + the (radix_digit c)) 0 s))
      else NaN)"

definition Number_js :: "string \<Rightarrow> number" where
  "Number_js s =
     (let t = trim s
      in case t of
           [] \<Rightarrow> Fin 0
         | c # u \<Rightarrow>
             if c = CHR ''0'' \<and> u \<noteq> [] \<and> hd u \<in> {CHR ''x'', CHR ''X''} then parse_radix 16 (tl u)
             else if c = CHR ''0'' \<and> u \<noteq> [] \<and> hd u \<in> {CHR ''o'', CHR ''O''} then parse_radix 8 (tl u)
             else if c = CHR ''0'' \<and> u \<noteq> [] \<and> hd u \<in> {CHR ''b'', CHR ''B''} then parse_radix 2 (tl u)
             else if c = CHR ''+'' then parse_unsigned_decimal u
             else if c = CHR ''-'' then num_neg (parse_unsigned_decimal u)
             else parse_unsigned_decimal t)"

subsection \<open>\<open>x.toString()\<close>: a number to its canonical text\<close>

text \<open>
  With \<open>n\<close>, \<open>k\<close> and the digits \<open>s\<close> such that the value is \<open>0.s \<times> 10\<^sup>n\<close> and \<open>s\<close> has \<open>k\<close>
  digits, the last not 0: plain digits when \<open>k \<le> n \<le> 21\<close>, a decimal point inside
  when \<open>0 < n \<le> 21\<close>, leading \<open>0.0\<dots>\<close> when \<open>-6 < n \<le> 0\<close>, and exponent notation
  otherwise. An integer below \<open>10\<^sup>2\<^sup>1\<close> is therefore its decimal digits. The text of a
  Number has at most 17 significant digits.
\<close>

fun sig_digits :: "nat \<Rightarrow> rat \<Rightarrow> string" where
  "sig_digits 0 x = []"
| "sig_digits (Suc f) x =
     (if x = 0 then []
      else digit_char (nat \<lfloor>x * 10\<rfloor>) # sig_digits f (x * 10 - of_int \<lfloor>x * 10\<rfloor>))"

definition dec_exponent :: "rat \<Rightarrow> int" where
  "dec_exponent r =
     (let (p, q) = quotient_of r
      in if q \<le> p then int (length (dec (nat (p div q))))
         else (let d = int (length (dec (nat q))) - int (length (dec (nat p)));
                   j = (if of_int q \<le> of_int p * pow10 d then d else d + 1)
               in 1 - j))"

definition format_digits :: "int \<Rightarrow> string \<Rightarrow> string" where
  "format_digits n ds =
     (let k = int (length ds)
      in if k \<le> n \<and> n \<le> 21 then ds @ replicate (nat (n - k)) (CHR ''0'')
         else if 0 < n \<and> n \<le> 21 then take (nat n) ds @ ''.'' @ drop (nat n) ds
         else if - 6 < n \<and> n \<le> 0 then ''0.'' @ replicate (nat (- n)) (CHR ''0'') @ ds
         else (let e = (if n - 1 < 0 then ''-'' else ''+'') @ dec (nat \<bar>n - 1\<bar>)
               in if k = 1 then ds @ ''e'' @ e
                  else take 1 ds @ ''.'' @ drop 1 ds @ ''e'' @ e))"

definition rat_toString :: "rat \<Rightarrow> string" where
  "rat_toString r =
     (if r = of_int \<lfloor>r\<rfloor> \<and> r < 10 ^ 21 then dec (nat \<lfloor>r\<rfloor>)
      else format_digits (dec_exponent r) (sig_digits 17 (r * pow10 (- dec_exponent r))))"

definition number_toString :: "number \<Rightarrow> string" where
  "number_toString x =
     (case x of
        NaN \<Rightarrow> ''NaN''
      | PosInf \<Rightarrow> ''Infinity''
      | NegInf \<Rightarrow> ''-Infinity''
      | Fin r \<Rightarrow> if r < 0 then ''-'' @ rat_toString (- r) else rat_toString r)"

section \<open>Header cards (src/lib/header.mjs)\<close>

datatype error =
    TypeError
  | RangeError
  | Empty_file
  | Incomplete_blocks
  | Short_read
  | Malformed_units
  | String_parser_error
  | Open_failed

text \<open>The values a caller can pass: \<open>JOther\<close> stands for \<open>null\<close>, objects and symbols.\<close>

datatype jsvalue =
    JUndefined
  | JBool bool
  | JNum number
  | JStr string
  | JBuffer string
  | JOther

text \<open>
  \<open>buf.write(data, offset, length, ENC)\<close> on a Buffer: Node refuses an \<open>offset\<close> or a
  \<open>length\<close> beyond the size of the buffer with a RangeError; otherwise it writes at
  most \<open>length\<close> bytes, and no more than what remains after \<open>offset\<close>, and returns the
  number of bytes written.
\<close>

definition Buffer_write :: "string \<Rightarrow> string \<Rightarrow> nat \<Rightarrow> nat \<Rightarrow> error + string \<times> nat" where
  "Buffer_write buf data offset len =
     (if length buf < offset \<or> length buf < len then Inl RangeError
      else let k = min (min len (length data)) (length buf - offset)
           in Inr (take offset buf @ take k data @ drop (offset + k) buf, k))"

subsection \<open>class RawHeader\<close>

text \<open>The private fields \<open>#buffer\<close> and \<open>#modified\<close>. A method that mutates the card
  returns its outcome together with the card as the call leaves it, also when it
  throws.\<close>

record RawHeader =
  p_buffer :: string
  p_modified :: bool

definition RawHeader_write ::
  "string \<Rightarrow> nat \<Rightarrow> nat \<Rightarrow> 'a RawHeader_scheme \<Rightarrow> (error + nat) \<times> 'a RawHeader_scheme" where
  "RawHeader_write data offset len h =
     (let h1 = h\<lparr>p_modified := True\<rparr>;
          len' = min headerSize (offset + len)
      in case Buffer_write (p_buffer h1) data offset len' of
           Inl e \<Rightarrow> (Inl e, h1)
         | Inr (buf, k) \<Rightarrow> (Inr k, h1\<lparr>p_buffer := buf\<rparr>))"

definition RawHeader_substring :: "nat \<Rightarrow> nat \<Rightarrow> 'a RawHeader_scheme \<Rightarrow> string" where
  "RawHeader_substring start end' h = Buffer_toString (subarray start end' (p_buffer h))"

definition RawHeader_modified :: "'a RawHeader_scheme \<Rightarrow> bool" where
  "RawHeader_modified h = p_modified h"

definition has_value :: "'a RawHeader_scheme \<Rightarrow> bool" where
  "has_value h = (RawHeader_substring keySize (keySize + 2) h = ''= '')"

definition keyword :: "'a RawHeader_scheme \<Rightarrow> string" where
  "keyword h = trimEnd (RawHeader_substring 0 keySize h)"

definition set_keyword :: "string \<Rightarrow> 'a RawHeader_scheme \<Rightarrow> (error + nat) \<times> 'a RawHeader_scheme" where
  "set_keyword arg h =
     (let s = padEnd keySize (toUpperCase (substring 0 keySize arg))
      in RawHeader_write s 0 keySize h)"

definition RawHeader_toString :: "'a RawHeader_scheme \<Rightarrow> string" where
  "RawHeader_toString h = RawHeader_substring 0 headerSize h"

definition RawHeader_constructor :: "jsvalue \<Rightarrow> error + RawHeader" where
  "RawHeader_constructor arg =
     (case arg of
        JBuffer b \<Rightarrow> Inr \<lparr>p_buffer = b, p_modified = False\<rparr>
      | JStr s \<Rightarrow>
          (case set_keyword s \<lparr>p_buffer = replicate headerSize (CHR '' ''), p_modified = False\<rparr> of
             (Inl e, _) \<Rightarrow> Inl e
           | (Inr _, h) \<Rightarrow> Inr h)
      | _ \<Rightarrow> Inl TypeError)"

subsection \<open>class CommentHeader\<close>

definition get_text :: "RawHeader \<Rightarrow> string" where
  "get_text h = RawHeader_substring keySize headerSize h"

definition set_text :: "jsvalue \<Rightarrow> RawHeader \<Rightarrow> (error + unit) \<times> RawHeader" where
  "set_text arg h =
     (case arg of
        JStr t \<Rightarrow>
          (let maxlen = headerSize - keySize;
               s = padEnd maxlen (substring 0 maxlen t)
           in case RawHeader_write s keySize maxlen h of
                (Inl e, h') \<Rightarrow> (Inl e, h')
              | (Inr _, h') \<Rightarrow> (Inr (), h'))
      | _ \<Rightarrow> (Inl TypeError, h))"

definition CommentHeader_constructor :: "jsvalue \<Rightarrow> jsvalue \<Rightarrow> error + RawHeader" where
  "CommentHeader_constructor arg text' =
     (case RawHeader_constructor arg of
        Inl e \<Rightarrow> Inl e
      | Inr h \<Rightarrow>
          (case arg of
             JStr _ \<Rightarrow> (case set_text text' h of (Inl e, _) \<Rightarrow> Inl e | (Inr _, h') \<Rightarrow> Inr h')
           | _ \<Rightarrow> Inr h))"

subsection \<open>class ValueHeader\<close>

text \<open>The private fields \<open>#value\<close>, \<open>#svalue\<close>, \<open>#units\<close>, \<open>#comment\<close> and \<open>#dirty\<close>;
  \<open>None\<close> is \<open>undefined\<close>.\<close>

record ValueHeader = RawHeader +
  p_value :: jsvalue
  p_svalue :: "string option"
  p_units :: "string option"
  p_comment :: "string option"
  p_dirty :: bool

definition update_svalue :: "ValueHeader \<Rightarrow> (error + unit) \<times> ValueHeader" where
  "update_svalue h =
     (case p_value h of
        JBool b \<Rightarrow>
          (Inr (), h\<lparr>p_svalue := Some (padStart valueSize (if b then ''T'' else ''F'')),
                     p_dirty := True\<rparr>)
      | JNum x \<Rightarrow>
          (Inr (), h\<lparr>p_svalue := Some (padStart valueSize (number_toString x)),
                     p_dirty := True\<rparr>)
      | JStr t \<Rightarrow>
          (Inr (), h\<lparr>p_svalue := Some (padEnd valueSize
                                           ([QUOTE] @ padEnd 8 (double_quotes t) @ [QUOTE])),
                     p_dirty := True\<rparr>)
      | _ \<Rightarrow> (Inl TypeError, h))"

definition set_value :: "jsvalue \<Rightarrow> ValueHeader \<Rightarrow> (error + unit) \<times> ValueHeader" where
  "set_value arg h = update_svalue (h\<lparr>p_value := arg\<rparr>)"

definition set_units :: "jsvalue \<Rightarrow> ValueHeader \<Rightarrow> (error + unit) \<times> ValueHeader" where
  "set_units arg h =
     (case arg of
        JStr t \<Rightarrow> (Inr (), h\<lparr>p_units := Some t, p_dirty := True\<rparr>)
      | JUndefined \<Rightarrow> (Inr (), h\<lparr>p_units := None, p_dirty := True\<rparr>)
      | _ \<Rightarrow> (Inl TypeError, h))"

definition set_comment :: "jsvalue \<Rightarrow> ValueHeader \<Rightarrow> (error + unit) \<times> ValueHeader" where
  "set_comment arg h =
     (case arg of
        JStr t \<Rightarrow> (Inr (), h\<lparr>p_comment := Some t, p_dirty := True\<rparr>)
      | JUndefined \<Rightarrow> (Inr (), h\<lparr>p_comment := None, p_dirty := True\<rparr>)
      | _ \<Rightarrow> (Inl TypeError, h))"

definition ValueHeader_modified :: "ValueHeader \<Rightarrow> bool" where
  "ValueHeader_modified h = (p_dirty h \<or> RawHeader_modified h)"

text \<open>\<open>#update\<close>: the text of the 72 bytes after the keyword, written into the
  buffer.\<close>

definition update_text :: "ValueHeader \<Rightarrow> string" where
  "update_text h =
     (let s = ''= '' @ (case p_svalue h of None \<Rightarrow> ''undefined'' | Some v \<Rightarrow> v);
          s = (if p_units h \<noteq> None \<or> p_comment h \<noteq> None then s @ '' / '' else s);
          s = (case p_units h of Some u \<Rightarrow> s @ ''['' @ u @ ''] '' | None \<Rightarrow> s);
          s = (case p_comment h of Some c \<Rightarrow> s @ c | None \<Rightarrow> s);
          maxlen = headerSize - keySize
      in substring 0 maxlen (padEnd maxlen s))"

definition update :: "ValueHeader \<Rightarrow> (error + unit) \<times> ValueHeader" where
  "update h =
     (case update_svalue h of
        (Inl e, h1) \<Rightarrow> (Inl e, h1)
      | (Inr _, h1) \<Rightarrow>
          (case RawHeader_write (update_text h1) keySize (headerSize - keySize) h1 of
             (Inl e, h2) \<Rightarrow> (Inl e, h2)
           | (Inr _, h2) \<Rightarrow> (Inr (), h2\<lparr>p_dirty := False\<rparr>)))"

definition ValueHeader_toString :: "ValueHeader \<Rightarrow> (error + string) \<times> ValueHeader" where
  "ValueHeader_toString h =
     (if p_dirty h then
        (case update h of
           (Inl e, h') \<Rightarrow> (Inl e, h')
         | (Inr _, h') \<Rightarrow> (Inr (RawHeader_toString h'), h'))
      else (Inr (RawHeader_toString h), h))"

text \<open>\<open>#parse_comment\<close>: the units and the comment it assigns.\<close>

definition parse_comment :: "string \<Rightarrow> error + string option \<times> string option" where
  "parse_comment s0 =
     (let s = trim s0
      in if startsWith (CHR ''/'') s then
           (let s = trimStart (drop 1 s)
            in if startsWith (CHR ''['') s then
                 (let i = indexOf (CHR '']'') 1 s
                  in if 1 < i then
                       Inr (Some (substring 1 (nat i) s), Some (trimStart (drop (nat i + 1) s)))
                     else Inl Malformed_units)
               else Inr (None, Some (trimStart s)))
         else Inr (None, None))"

text \<open>The loop of \<open>#parse_string\<close>, over the text that is left at \<open>offset\<close>.\<close>

fun scan :: "string \<Rightarrow> bool \<Rightarrow> nat \<Rightarrow> bool \<times> nat" where
  "scan [] inside offset = (inside, offset)"
| "scan (ch # rest) inside offset =
     (if ch = QUOTE then scan rest (\<not> inside) (Suc offset)
      else if ch = SLASH \<and> \<not> inside then (inside, offset)
      else scan rest inside (Suc offset))"

definition parse_string :: "ValueHeader \<Rightarrow> error + ValueHeader" where
  "parse_string h =
     (let data = RawHeader_substring 10 headerSize h;
          (inside, offset) = scan data False 0;
          v = trimEnd (substring 0 offset data)
      in if inside \<or> \<not> startsWith QUOTE v \<or> \<not> endsWith QUOTE v then Inl String_parser_error
         else
           (let c = drop offset data;
                h1 = h\<lparr>p_value := JStr (trimEnd (undouble_quotes (substring 1 (length v - 1) v)))\<rparr>
            in case parse_comment c of
                 Inl e \<Rightarrow> Inl e
               | Inr (u, c') \<Rightarrow> Inr (h1\<lparr>p_units := u, p_comment := c'\<rparr>)))"

definition parse :: "ValueHeader \<Rightarrow> error + ValueHeader" where
  "parse h =
     (let content = RawHeader_substring (keySize + 2) headerSize h
      in if startsWith QUOTE (trimStart content) then parse_string h
         else
           (let v = trimStart (substring 0 valueSize content);
                h1 = (if v = ''T'' then h\<lparr>p_value := JBool True\<rparr>
                      else if v = ''F'' then h\<lparr>p_value := JBool False\<rparr>
                      else h\<lparr>p_value := JNum (Number_js v)\<rparr>);
                c = RawHeader_substring 30 headerSize h1
            in case parse_comment c of
                 Inl e \<Rightarrow> Inl e
               | Inr (u, c') \<Rightarrow> Inr (h1\<lparr>p_units := u, p_comment := c'\<rparr>)))"

definition ValueHeader_constructor ::
  "jsvalue \<Rightarrow> jsvalue \<Rightarrow> jsvalue \<Rightarrow> jsvalue \<Rightarrow> error + ValueHeader" where
  "ValueHeader_constructor arg v u c =
     (case RawHeader_constructor arg of
        Inl e \<Rightarrow> Inl e
      | Inr r \<Rightarrow>
          (let h = RawHeader.extend r
                     \<lparr>p_value = JUndefined, p_svalue = None, p_units = None,
                      p_comment = None, p_dirty = False\<rparr>
           in case arg of
                JBuffer _ \<Rightarrow> parse h
              | JStr _ \<Rightarrow>
                  (case set_value v h of
                     (Inl e, _) \<Rightarrow> Inl e
                   | (Inr _, h1) \<Rightarrow>
                       (case set_units u h1 of
                          (Inl e, _) \<Rightarrow> Inl e
                        | (Inr _, h2) \<Rightarrow>
                            (case set_comment c h2 of
                               (Inl e, _) \<Rightarrow> Inl e
                             | (Inr _, h3) \<Rightarrow> Inr h3)))
              | _ \<Rightarrow> Inr h))"

subsection \<open>class Header: the three kinds of card and the entry points\<close>

datatype Header = Raw RawHeader | Comment RawHeader | Value ValueHeader

definition from_buffer :: "jsvalue \<Rightarrow> error + Header" where
  "from_buffer buffer =
     (case RawHeader_constructor buffer of
        Inl e \<Rightarrow> Inl e
      | Inr raw \<Rightarrow>
          (let k = keyword raw
           in if k = ''COMMENT'' \<or> k = ''HISTORY'' then
                map_sum id Comment (CommentHeader_constructor buffer JUndefined)
              else if has_value raw then
                map_sum id Value (ValueHeader_constructor buffer JUndefined JUndefined JUndefined)
              else Inr (Raw raw)))"

definition Header_comment :: "jsvalue \<Rightarrow> error + Header" where
  "Header_comment text' = map_sum id Comment (CommentHeader_constructor (JStr ''COMMENT'') text')"

definition Header_history :: "jsvalue \<Rightarrow> error + Header" where
  "Header_history text' = map_sum id Comment (CommentHeader_constructor (JStr ''HISTORY'') text')"

definition Header_value :: "jsvalue \<Rightarrow> jsvalue \<Rightarrow> jsvalue \<Rightarrow> jsvalue \<Rightarrow> error + Header" where
  "Header_value k v u c = map_sum id Value (ValueHeader_constructor k v u c)"

text \<open>What every kind of card answers: \<open>keyword\<close>, \<open>modified\<close>, \<open>toString()\<close>, and
  \<open>value\<close>, \<open>units\<close>, \<open>comment\<close>, which only a Value card has (\<open>undefined\<close>
  elsewhere).\<close>

definition Header_keyword :: "Header \<Rightarrow> string" where
  "Header_keyword h = (case h of Raw r \<Rightarrow> keyword r | Comment r \<Rightarrow> keyword r | Value v \<Rightarrow> keyword v)"

definition Header_modified :: "Header \<Rightarrow> bool" where
  "Header_modified h =
     (case h of Raw r \<Rightarrow> RawHeader_modified r | Comment r \<Rightarrow> RawHeader_modified r
      | Value v \<Rightarrow> ValueHeader_modified v)"

definition Header_toString :: "Header \<Rightarrow> (error + string) \<times> Header" where
  "Header_toString h =
     (case h of
        Raw r \<Rightarrow> (Inr (RawHeader_toString r), h)
      | Comment r \<Rightarrow> (Inr (RawHeader_toString r), h)
      | Value v \<Rightarrow> (case ValueHeader_toString v of (res, v') \<Rightarrow> (res, Value v')))"

definition Header_buffer :: "Header \<Rightarrow> string" where
  "Header_buffer h = (case h of Raw r \<Rightarrow> p_buffer r | Comment r \<Rightarrow> p_buffer r | Value v \<Rightarrow> p_buffer v)"

definition Header_value_of :: "Header \<Rightarrow> jsvalue" where
  "Header_value_of h = (case h of Value v \<Rightarrow> p_value v | _ \<Rightarrow> JUndefined)"

definition Header_units :: "Header \<Rightarrow> string option" where
  "Header_units h = (case h of Value v \<Rightarrow> p_units v | _ \<Rightarrow> None)"

definition Header_comment_of :: "Header \<Rightarrow> string option" where
  "Header_comment_of h = (case h of Value v \<Rightarrow> p_comment v | _ \<Rightarrow> None)"

section \<open>The storage device\<close>

text \<open>
  The file system as the code uses it: the bytes of each path, and the table of the
  descriptors, each open on a path or closed. \<open>openSync\<close> gives a new descriptor,
  \<open>fstatSync(fd).size\<close> is the number of bytes, \<open>readSync\<close> gives the bytes found at
  a position (fewer than asked at the end of the file), \<open>closeSync\<close> closes.
\<close>

record fs_state =
  fs_files :: "string \<Rightarrow> string option"
  fs_fds :: "string option list"

definition openSync :: "string \<Rightarrow> fs_state \<Rightarrow> (error + nat) \<times> fs_state" where
  "openSync path fs =
     (case fs_files fs path of
        None \<Rightarrow> (Inl Open_failed, fs)
      | Some _ \<Rightarrow> (Inr (length (fs_fds fs)), fs\<lparr>fs_fds := fs_fds fs @ [Some path]\<rparr>))"

definition closeSync :: "nat \<Rightarrow> fs_state \<Rightarrow> fs_state" where
  "closeSync fd fs = fs\<lparr>fs_fds := (fs_fds fs)[fd := None]\<rparr>"

definition is_open :: "fs_state \<Rightarrow> nat \<Rightarrow> bool" where
  "is_open fs fd = (fd < length (fs_fds fs) \<and> fs_fds fs ! fd \<noteq> None)"

definition fd_bytes :: "fs_state \<Rightarrow> nat \<Rightarrow> string" where
  "fd_bytes fs fd =
     (if fd < length (fs_fds fs) then
        (case fs_fds fs ! fd of
           None \<Rightarrow> []
         | Some path \<Rightarrow> (case fs_files fs path of None \<Rightarrow> [] | Some bytes \<Rightarrow> bytes))
      else [])"

definition fstat_size :: "fs_state \<Rightarrow> nat \<Rightarrow> nat" where
  "fstat_size fs fd = length (fd_bytes fs fd)"

definition readSync :: "fs_state \<Rightarrow> nat \<Rightarrow> nat \<Rightarrow> nat \<Rightarrow> string" where
  "readSync fs fd len pos = take len (drop pos (fd_bytes fs fd))"

section \<open>HDU and File (src/lib/hdu.mjs, src/lib/file.mjs)\<close>

text \<open>The private fields of an HDU (its reference to the cursor apart) and of a
  File.\<close>

record HDU =
  p_headers :: "Header list"
  p_size :: number
  p_start :: nat
  p_end :: number

record File =
  p_fd :: nat
  p_blockCount :: nat
  p_hdus :: "HDU list"

text \<open>\<open>block(n)\<close>, for an integer \<open>n\<close> (any other argument is a TypeError).\<close>

definition block :: "fs_state \<Rightarrow> File \<Rightarrow> int \<Rightarrow> error + string option" where
  "block fs self i =
     (if i < 0 \<or> int (p_blockCount self) \<le> i then Inl RangeError
      else
        (let buf = readSync fs (p_fd self) blockSize (nat i * blockSize);
             count = length buf
         in if count = blockSize then Inr (Some buf)
            else if count = 0 then Inr None
            else Inl Short_read))"

subsection \<open>The block cursor of \<open>#block_iterator\<close>\<close>

record cursor =
  cur_n :: nat
  cur_end :: nat

definition block_iterator :: "nat \<Rightarrow> nat \<Rightarrow> cursor" where
  "block_iterator start end' = \<lparr>cur_n = start, cur_end = end'\<rparr>"

definition cursor_position :: "cursor \<Rightarrow> nat" where
  "cursor_position it = cur_n it"

definition cursor_done :: "cursor \<Rightarrow> bool" where
  "cursor_done it = (cur_end it \<le> cur_n it)"

definition cursor_next :: "fs_state \<Rightarrow> File \<Rightarrow> cursor \<Rightarrow> error + string option \<times> cursor" where
  "cursor_next fs self it =
     (if cursor_done it then Inr (None, it)
      else
        (case block fs self (int (cur_n it)) of
           Inl e \<Rightarrow> Inl e
         | Inr v \<Rightarrow> Inr (v, it\<lparr>cur_n := cur_n it + 1\<rparr>)))"

definition cursor_skip :: "number \<Rightarrow> cursor \<Rightarrow> error + cursor" where
  "cursor_skip c it =
     (if \<not> isInteger c then Inl TypeError
      else if num_less c (Fin 0) \<or> num_less (Fin (of_nat (cur_end it))) (num_add (Fin (of_nat (cur_n it))) c)
        then Inl RangeError
      else (case c of Fin r \<Rightarrow> Inr (it\<lparr>cur_n := cur_n it + nat \<lfloor>r\<rfloor>\<rparr>) | _ \<Rightarrow> Inl TypeError))"

definition blocks :: "File \<Rightarrow> cursor" where
  "blocks self = block_iterator 0 (p_blockCount self)"

subsection \<open>class HDU\<close>

text \<open>\<open>header(keyword)\<close> over the cards read so far.\<close>

definition find_header :: "string \<Rightarrow> Header list \<Rightarrow> Header option" where
  "find_header k hs = find (\<lambda>h. Header_keyword h = k) hs"

definition HDU_header :: "string \<Rightarrow> HDU \<Rightarrow> Header option" where
  "HDU_header k hdu = find_header k (p_headers hdu)"

definition HDU_headers :: "jsvalue \<Rightarrow> HDU \<Rightarrow> error + Header list" where
  "HDU_headers arg hdu =
     (case arg of
        JStr k \<Rightarrow> (let k' = trim (toUpperCase k)
                   in Inr (filter (\<lambda>h. Header_keyword h = k') (p_headers hdu)))
      | JUndefined \<Rightarrow> Inr (p_headers hdu)
      | _ \<Rightarrow> Inl TypeError)"

definition HDU_modified :: "HDU \<Rightarrow> bool" where
  "HDU_modified hdu = list_ex Header_modified (p_headers hdu)"

text \<open>The inner loop of \<open>#read_headers\<close>, over the cards of one block from offset \<open>j\<close>:
  the cards so far, and whether \<open>END\<close> was met.\<close>

function read_cards :: "string \<Rightarrow> nat \<Rightarrow> Header list \<Rightarrow> error + Header list \<times> bool" where
  "read_cards buf j hs =
     (if j < blockSize then
        (case from_buffer (JBuffer (subarray j (j + headerSize) buf)) of
           Inl e \<Rightarrow> Inl e
         | Inr h \<Rightarrow>
             if Header_keyword h = ''END'' then Inr (hs @ [h], True)
             else read_cards buf (j + headerSize) (hs @ [h]))
      else Inr (hs, False))"
  by pat_completeness auto
termination
  by (relation "measure (\<lambda>(buf, j, hs). blockSize - j)") (auto simp: blockSize_def headerSize_def)

declare read_cards.simps [simp del]

text \<open>The outer loop: a cursor that is done gives \<open>undefined\<close>, and \<open>buf.subarray\<close> is
  then a TypeError.\<close>

function read_headers ::
  "fs_state \<Rightarrow> File \<Rightarrow> cursor \<Rightarrow> Header list \<Rightarrow> error + Header list \<times> cursor" where
  "read_headers fs self it hs =
     (case cursor_next fs self it of
        Inl e \<Rightarrow> Inl e
      | Inr (None, it') \<Rightarrow> Inl TypeError
      | Inr (Some buf, it') \<Rightarrow>
          (case read_cards buf 0 hs of
             Inl e \<Rightarrow> Inl e
           | Inr (hs', True) \<Rightarrow> Inr (hs', it')
           | Inr (hs', False) \<Rightarrow> read_headers fs self it' hs'))"
  by pat_completeness auto
termination
  by (relation "measure (\<lambda>(fs, self, it, hs). cur_end it - cur_n it)")
     (auto simp: cursor_next_def cursor_done_def split: if_splits sum.splits)

declare read_headers.simps [simp del]

text \<open>The conversion of a card's \<open>value\<close> to a number, as \<open>>\<close>, \<open><=\<close>, \<open>/\<close> and \<open>*\<close> do it.
  A decoded card holds a boolean, a number or a text, or has no value at all.\<close>

definition ToNumber :: "jsvalue \<Rightarrow> number" where
  "ToNumber v =
     (case v of
        JBool b \<Rightarrow> Fin (if b then 1 else 0)
      | JNum x \<Rightarrow> x
      | JStr t \<Rightarrow> Number_js t
      | _ \<Rightarrow> NaN)"

text \<open>No card has a keyword of more than eight characters, and \<open>'NAXIS' + i\<close> has nine
  from \<open>i = 1000\<close> on: this bounds the loop over the axes.\<close>

lemma length_trimEnd_le: "length (trimEnd s) \<le> length s"
proof -
  have "length (dropWhile is_ws (rev s)) \<le> length (rev s)"
    by (rule length_dropWhile_le)
  then show ?thesis by (simp add: trimEnd_def)
qed

lemma length_keyword_le: "length (keyword h) \<le> 8"
proof -
  have "length (trimEnd (RawHeader_substring 0 keySize h)) \<le> length (RawHeader_substring 0 keySize h)"
    by (rule length_trimEnd_le)
  also have "\<dots> \<le> 8"
    by (simp add: RawHeader_substring_def Buffer_toString_def subarray_def keySize_def)
  finally show ?thesis by (simp add: keyword_def)
qed

lemma length_Header_keyword_le: "length (Header_keyword h) \<le> 8"
  by (cases h) (simp_all add: Header_keyword_def length_keyword_le)

lemma find_header_Some: "find_header k hs = Some h \<Longrightarrow> h \<in> set hs \<and> Header_keyword h = k"
  unfolding find_header_def by (auto simp: find_Some_iff)

lemma length_dec_pos: "1 \<le> length (dec n)"
  by (subst dec.simps) simp

lemma length_dec_step: "10 \<le> m \<Longrightarrow> length (dec m) = length (dec (m div 10)) + 1"
  by (simp add: dec.simps [of m])

lemma length_dec_ge4: "1000 \<le> n \<Longrightarrow> 4 \<le> length (dec n)"
proof -
  assume n: "1000 \<le> n"
  define m1 where "m1 = n div 10"
  define m2 where "m2 = m1 div 10"
  define m3 where "m3 = m2 div 10"
  from n have n1: "10 \<le> n" by simp
  from div_le_mono [OF n, of 10] have k1: "100 \<le> m1" unfolding m1_def by simp
  from div_le_mono [OF k1, of 10] have k2: "10 \<le> m2" unfolding m2_def by simp
  from k1 have n2: "10 \<le> m1" by simp
  from k2 have n3: "10 \<le> m2" by simp
  have a: "length (dec n) = length (dec m1) + 1"
    unfolding m1_def by (rule length_dec_step [OF n1])
  have b: "length (dec m1) = length (dec m2) + 1"
    unfolding m2_def by (rule length_dec_step [OF n2])
  have c: "length (dec m2) = length (dec m3) + 1"
    unfolding m3_def by (rule length_dec_step [OF n3])
  from a b c length_dec_pos [of m3] show ?thesis by simp
qed

lemma find_header_NAXIS_bound: "find_header (''NAXIS'' @ dec i) hs = Some h \<Longrightarrow> i < 1000"
proof (rule ccontr)
  assume f: "find_header (''NAXIS'' @ dec i) hs = Some h" and "\<not> i < 1000"
  then have "4 \<le> length (dec i)" by (simp add: length_dec_ge4)
  moreover from f have "length (''NAXIS'' @ dec i) \<le> 8"
    using find_header_Some [OF f] length_Header_keyword_le [of h] by simp
  ultimately show False by simp
qed

text \<open>The loop \<open>for (let i = 1; i <= naxis.value; ++i) this.#size *= this.header('NAXIS' + i).value\<close>;
  a card that is missing is a TypeError.\<close>

function naxis_loop :: "Header list \<Rightarrow> number \<Rightarrow> nat \<Rightarrow> number \<Rightarrow> error + number" where
  "naxis_loop hs nv i size' =
     (if num_le (Fin (of_nat i)) nv then
        (case find_header (''NAXIS'' @ dec i) hs of
           None \<Rightarrow> Inl TypeError
         | Some h \<Rightarrow> naxis_loop hs nv (Suc i) (num_mult size' (ToNumber (Header_value_of h))))
      else Inr size')"
  by pat_completeness auto
termination
proof (relation "measure (\<lambda>(hs, nv, i, size'). 1000 - i)")
  show "wf (measure (\<lambda>(hs, nv, i, size'). 1000 - i))" by simp
next
  fix hs :: "Header list" and nv :: number and i :: nat and size' :: number and h :: Header
  assume "find_header (''NAXIS'' @ dec i) hs = Some h"
  then have "i < 1000" by (rule find_header_NAXIS_bound)
  then show "((hs, nv, Suc i, num_mult size' (ToNumber (Header_value_of h))), (hs, nv, i, size'))
               \<in> measure (\<lambda>(hs, nv, i, size'). 1000 - i)"
    by simp
qed

declare naxis_loop.simps [simp del]

text \<open>The constructor of an HDU: the HDU, and the cursor as it leaves it.\<close>

definition HDU_constructor :: "fs_state \<Rightarrow> File \<Rightarrow> cursor \<Rightarrow> error + HDU \<times> cursor" where
  "HDU_constructor fs self it =
     (case read_headers fs self it [] of
        Inl e \<Rightarrow> Inl e
      | Inr (hs, it1) \<Rightarrow>
          (let start = cursor_position it1;
               naxis = find_header ''NAXIS'' hs;
               bpp = find_header ''BITPIX'' hs
           in case naxis of
                None \<Rightarrow> Inl TypeError
              | Some nx \<Rightarrow>
                  if num_less (Fin 0) (ToNumber (Header_value_of nx)) then
                    (case bpp of
                       None \<Rightarrow> Inl TypeError
                     | Some bp \<Rightarrow>
                         (case naxis_loop hs (ToNumber (Header_value_of nx)) 1
                                 (num_abs (num_div (ToNumber (Header_value_of bp)) (Fin 8))) of
                            Inl e \<Rightarrow> Inl e
                          | Inr size' \<Rightarrow>
                              (let count = num_ceil (num_div size' (Fin (of_nat blockSize)));
                                   end' = num_add (Fin (of_nat start)) count
                               in case cursor_skip count it1 of
                                    Inl e \<Rightarrow> Inl e
                                  | Inr it2 \<Rightarrow>
                                      Inr (\<lparr>p_headers = hs, p_size = size', p_start = start,
                                            p_end = end'\<rparr>, it2))))
                  else Inr (\<lparr>p_headers = hs, p_size = Fin 0, p_start = start,
                             p_end = Fin (of_nat start)\<rparr>, it1)))"

text \<open>Every HDU takes at least one block from the cursor and leaves it within its
  bounds: the loop of the File constructor ends.\<close>

lemma cursor_next_Some:
  "cursor_next fs self it = Inr (Some buf, it') \<Longrightarrow>
     cur_n it < cur_end it \<and> it' = it\<lparr>cur_n := cur_n it + 1\<rparr> \<and>
     block fs self (int (cur_n it)) = Inr (Some buf)"
  by (auto simp: cursor_next_def cursor_done_def split: if_splits sum.splits)

lemma read_headers_cursor:
  "read_headers fs self it hs = Inr (hs', it') \<Longrightarrow>
     cur_n it < cur_n it' \<and> cur_n it' \<le> cur_end it' \<and> cur_end it' = cur_end it"
proof (induction fs self it hs rule: read_headers.induct)
  case (1 fs self it hs)
  from "1.prems" obtain buf it1 where n: "cursor_next fs self it = Inr (Some buf, it1)"
    by (subst (asm) read_headers.simps) (auto split: sum.splits option.splits)
  note c = cursor_next_Some [OF n]
  from "1.prems" n obtain hs1 b where r: "read_cards buf 0 hs = Inr (hs1, b)"
    by (subst (asm) read_headers.simps) (auto split: sum.splits)
  show ?case
  proof (cases b)
    case True
    with "1.prems" n r have "it' = it1"
      by (subst (asm) read_headers.simps) simp
    with c show ?thesis by auto
  next
    case False
    with r have r': "read_cards buf 0 hs = Inr (hs1, False)" by simp
    with "1.prems" n have "read_headers fs self it1 hs1 = Inr (hs', it')"
      by (subst (asm) read_headers.simps) simp
    with "1.IH" [OF n refl refl r' refl refl] c show ?thesis by auto
  qed
qed

lemma cursor_skip_cursor:
  "cursor_skip c it = Inr it' \<Longrightarrow>
     cur_n it \<le> cur_n it' \<and> (cur_n it \<le> cur_end it \<longrightarrow> cur_n it' \<le> cur_end it') \<and>
     cur_end it' = cur_end it"
proof -
  assume s: "cursor_skip c it = Inr it'"
  then obtain r where c: "c = Fin r"
    by (cases c) (auto simp: cursor_skip_def isInteger_def split: if_splits)
  from s c have r: "r = of_int \<lfloor>r\<rfloor>" and r0: "0 \<le> r"
    and le: "of_nat (cur_n it) + r \<le> of_nat (cur_end it)"
    and it': "it' = it\<lparr>cur_n := cur_n it + nat \<lfloor>r\<rfloor>\<rparr>"
    by (auto simp: cursor_skip_def isInteger_def num_less_def num_add_def split: if_splits)
  from r0 have f0: "0 \<le> \<lfloor>r\<rfloor>" by simp
  from le r have "of_nat (cur_n it) + (of_int \<lfloor>r\<rfloor> :: rat) \<le> of_nat (cur_end it)" by simp
  then have "(of_int (int (cur_n it) + \<lfloor>r\<rfloor>) :: rat) \<le> of_int (int (cur_end it))" by simp
  then have "int (cur_n it) + \<lfloor>r\<rfloor> \<le> int (cur_end it)" by (simp only: of_int_le_iff)
  with f0 have "cur_n it + nat \<lfloor>r\<rfloor> \<le> cur_end it" by linarith
  with it' show ?thesis by simp
qed

lemma HDU_constructor_cursor:
  "HDU_constructor fs self it = Inr (hdu, it') \<Longrightarrow>
     cur_n it < cur_n it' \<and> cur_n it' \<le> cur_end it' \<and> cur_end it' = cur_end it"
proof -
  assume h: "HDU_constructor fs self it = Inr (hdu, it')"
  then obtain hs it1 where r: "read_headers fs self it [] = Inr (hs, it1)"
    by (auto simp: HDU_constructor_def split: sum.splits)
  note c = read_headers_cursor [OF r]
  from h r have "it' = it1 \<or> (\<exists>k. cursor_skip k it1 = Inr it')"
    by (auto simp: HDU_constructor_def Let_def split: sum.splits option.splits if_splits)
  then show ?thesis
  proof
    assume "it' = it1"
    with c show ?thesis by simp
  next
    assume "\<exists>k. cursor_skip k it1 = Inr it'"
    then obtain k where "cursor_skip k it1 = Inr it'" ..
    from cursor_skip_cursor [OF this] c show ?thesis by auto
  qed
qed

subsection \<open>class File\<close>

text \<open>The loop \<open>while (!iter.done) this.#hdus.push(new HDU(iter))\<close>.\<close>

function hdu_loop :: "fs_state \<Rightarrow> File \<Rightarrow> cursor \<Rightarrow> HDU list \<Rightarrow> error + HDU list" where
  "hdu_loop fs self it hdus =
     (if cursor_done it then Inr hdus
      else
        (case HDU_constructor fs self it of
           Inl e \<Rightarrow> Inl e
         | Inr (hdu, it') \<Rightarrow> hdu_loop fs self it' (hdus @ [hdu])))"
  by pat_completeness auto
termination
proof (relation "measure (\<lambda>(fs, self, it, hdus). cur_end it - cur_n it)")
  show "wf (measure (\<lambda>(fs, self, it, hdus). cur_end it - cur_n it))" by simp
next
  fix fs :: fs_state and self :: File and it :: cursor and hdus :: "HDU list"
    and x2 :: "HDU \<times> cursor" and hdu :: HDU and it' :: cursor
  assume "\<not> cursor_done it" and "HDU_constructor fs self it = Inr x2" and "(hdu, it') = x2"
  then have "HDU_constructor fs self it = Inr (hdu, it')" by simp
  from HDU_constructor_cursor [OF this]
  show "((fs, self, it', hdus @ [hdu]), (fs, self, it, hdus))
          \<in> measure (\<lambda>(fs, self, it, hdus). cur_end it - cur_n it)"
    by auto
qed

declare hdu_loop.simps [simp del]

text \<open>The constructor of a File: the outcome, and the file system as the call leaves
  it.\<close>

definition File_constructor :: "string \<Rightarrow> fs_state \<Rightarrow> (error + File) \<times> fs_state" where
  "File_constructor path fs =
     (case openSync path fs of
        (Inl e, fs1) \<Rightarrow> (Inl e, fs1)
      | (Inr fd, fs1) \<Rightarrow>
          (let size' = fstat_size fs1 fd
           in if size' = 0 then (Inl Empty_file, fs1)
              else if size' mod blockSize \<noteq> 0 then (Inl Incomplete_blocks, fs1)
              else
                (let self = \<lparr>p_fd = fd, p_blockCount = size' div blockSize, p_hdus = []\<rparr>
                 in case hdu_loop fs1 self (blocks self) [] of
                      Inl e \<Rightarrow> (Inl e, fs1)
                    | Inr hdus \<Rightarrow> (Inr (self\<lparr>p_hdus := hdus\<rparr>), fs1))))"

section \<open>Properties of the card codec\<close>

subsection \<open>The bytes after the keyword field\<close>

lemma substring_after_keyword:
  "length kw = 8 \<Longrightarrow> 8 \<le> a \<Longrightarrow>
   RawHeader_substring a b (h\<lparr>p_buffer := kw @ body\<rparr>) = Buffer_toString (subarray (a - 8) (b - 8) body)"
  by (simp add: RawHeader_substring_def subarray_def)

lemma keyword_of_field:
  "length kw = 8 \<Longrightarrow> keyword (h\<lparr>p_buffer := kw @ body\<rparr>) = trimEnd (Buffer_toString kw)"
  by (simp add: keyword_def RawHeader_substring_def subarray_def keySize_def)

lemma extend_raw:
  "RawHeader.extend \<lparr>p_buffer = b, p_modified = m\<rparr>
      \<lparr>p_value = v, p_svalue = sv, p_units = u, p_comment = c, p_dirty = d\<rparr>
   = \<lparr>p_buffer = b, p_modified = m, p_value = v, p_svalue = sv, p_units = u, p_comment = c,
      p_dirty = d\<rparr>"
  by (simp add: RawHeader.extend_def)

lemma map_sum_id_Inr: "map_sum id g x = Inr y \<longleftrightarrow> (\<exists>z. x = Inr z \<and> y = g z)"
  by (cases x) auto

lemma from_buffer_value_card:
  assumes len: "length kw = 8"
    and k: "trimEnd (Buffer_toString kw) \<notin> {''COMMENT'', ''HISTORY''}"
  shows "from_buffer (JBuffer (kw @ ''= '' @ d))
     = map_sum id Value (parse \<lparr>p_buffer = kw @ ''= '' @ d, p_modified = False, p_value = JUndefined,
          p_svalue = None, p_units = None, p_comment = None, p_dirty = False\<rparr>)"
proof -
  let ?raw = "\<lparr>p_buffer = kw @ ''= '' @ d, p_modified = False\<rparr>"
  have kwd: "keyword ?raw = trimEnd (Buffer_toString kw)"
    using keyword_of_field [OF len, where h = ?raw and body = "''= '' @ d"] by simp
  have hv: "has_value ?raw"
    using len by (simp add: has_value_def RawHeader_substring_def subarray_def keySize_def
        Buffer_toString_def ascii7_def)
  from k have k': "trimEnd (Buffer_toString kw) \<noteq> ''COMMENT''" "trimEnd (Buffer_toString kw) \<noteq> ''HISTORY''"
    by auto
  show ?thesis
    using kwd hv k'
    by (simp add: from_buffer_def RawHeader_constructor_def ValueHeader_constructor_def extend_raw)
qed

subsection \<open>The scenario card with a doubled apostrophe\<close>

text \<open>The 72 bytes \<open>= 'it''s ok' / [m] distance\<close>, padded with spaces, that follow the
  keyword field of the scenario card.\<close>

definition scenario_text :: string where
  "scenario_text = ''= '' @ [QUOTE] @ ''it'' @ [QUOTE, QUOTE] @ ''s ok'' @ [QUOTE]
     @ '' / [m] distance                                             ''"

lemma scenario_parse:
  "length kw = 8 \<Longrightarrow>
   parse \<lparr>p_buffer = kw @ scenario_text, p_modified = False, p_value = JUndefined, p_svalue = None,
          p_units = None, p_comment = None, p_dirty = False\<rparr>
   = Inr \<lparr>p_buffer = kw @ scenario_text, p_modified = False, p_value = JStr ''it's ok'', p_svalue = None,
          p_units = Some ''m'', p_comment = Some ''distance'', p_dirty = False\<rparr>"
  by (simp add: parse_def parse_string_def RawHeader_substring_def subarray_def keySize_def headerSize_def valueSize_def
     scenario_text_def Buffer_toString_def ascii7_def QUOTE_def SLASH_def trimStart_def trimEnd_def trim_def is_ws_def startsWith_def endsWith_def substring_def parse_comment_def indexOf_def)

text \<open>
  C5, as the specification states it, fails: the card \<open>COMMENT = 'it''s ok' / [m] distance\<close>
  has the keyword \<open>COMMENT\<close>, and \<open>from_buffer\<close> makes a Comment card of it before it
  looks for the value marker. The card decoded has no value.
\<close>

theorem scenario_comment_keyword:
  "from_buffer (JBuffer (''COMMENT '' @ scenario_text))
     = Inr (Comment \<lparr>p_buffer = ''COMMENT '' @ scenario_text, p_modified = False\<rparr>)
   \<and> Header_value_of (Comment \<lparr>p_buffer = ''COMMENT '' @ scenario_text, p_modified = False\<rparr>)
       \<noteq> JStr ''it's ok''"
  by (simp add: from_buffer_def RawHeader_constructor_def CommentHeader_constructor_def keyword_def
      RawHeader_substring_def subarray_def keySize_def Buffer_toString_def ascii7_def trimEnd_def is_ws_def
      Header_value_of_def)

text \<open>
  C5, amended: the scenario card decodes to a Comment card whose text is the 72 bytes
  after the keyword; the same 72 bytes after any keyword field other than \<open>COMMENT\<close> and
  \<open>HISTORY\<close> decode to a Value card with the value \<open>it's ok\<close> (each doubled
  apostrophe gives one apostrophe), the units \<open>m\<close> and the comment \<open>distance\<close>.
\<close>

theorem scenario_value_keyword:
  "from_buffer (JBuffer (''COMMENT '' @ scenario_text))
     = Inr (Comment \<lparr>p_buffer = ''COMMENT '' @ scenario_text, p_modified = False\<rparr>)
   \<and> get_text \<lparr>p_buffer = ''COMMENT '' @ scenario_text, p_modified = False\<rparr> = scenario_text
   \<and> (\<forall>kw. length kw = 8 \<and> trimEnd (Buffer_toString kw) \<notin> {''COMMENT'', ''HISTORY''} \<longrightarrow>
        from_buffer (JBuffer (kw @ scenario_text))
          = Inr (Value \<lparr>p_buffer = kw @ scenario_text, p_modified = False, p_value = JStr ''it's ok'',
                        p_svalue = None, p_units = Some ''m'', p_comment = Some ''distance'',
                        p_dirty = False\<rparr>))"
proof (intro conjI allI impI)
  show "from_buffer (JBuffer (''COMMENT '' @ scenario_text))
     = Inr (Comment \<lparr>p_buffer = ''COMMENT '' @ scenario_text, p_modified = False\<rparr>)"
    by (simp add: from_buffer_def RawHeader_constructor_def CommentHeader_constructor_def keyword_def
      RawHeader_substring_def subarray_def keySize_def Buffer_toString_def ascii7_def trimEnd_def is_ws_def)
  show "get_text \<lparr>p_buffer = ''COMMENT '' @ scenario_text, p_modified = False\<rparr> = scenario_text"
    by (simp add: get_text_def RawHeader_substring_def subarray_def keySize_def headerSize_def
        scenario_text_def Buffer_toString_def ascii7_def QUOTE_def)
next
  fix kw :: string
  assume a: "length kw = 8 \<and> trimEnd (Buffer_toString kw) \<notin> {''COMMENT'', ''HISTORY''}"
  then have len: "length kw = 8" and k: "trimEnd (Buffer_toString kw) \<noteq> ''COMMENT''"
    "trimEnd (Buffer_toString kw) \<noteq> ''HISTORY''" by auto
  let ?raw = "\<lparr>p_buffer = kw @ scenario_text, p_modified = False\<rparr>"
  have kwd: "keyword ?raw = trimEnd (Buffer_toString kw)"
    using keyword_of_field [OF len, where h = ?raw and body = scenario_text] by simp
  have hv: "has_value ?raw"
    using len by (simp add: has_value_def RawHeader_substring_def subarray_def keySize_def
        scenario_text_def Buffer_toString_def ascii7_def)
  have ext: "RawHeader.extend ?raw \<lparr>p_value = JUndefined, p_svalue = None, p_units = None,
                      p_comment = None, p_dirty = False\<rparr>
     = \<lparr>p_buffer = kw @ scenario_text, p_modified = False, p_value = JUndefined, p_svalue = None,
          p_units = None, p_comment = None, p_dirty = False\<rparr>"
    by (simp add: RawHeader.extend_def)
  show "from_buffer (JBuffer (kw @ scenario_text))
          = Inr (Value \<lparr>p_buffer = kw @ scenario_text, p_modified = False, p_value = JStr ''it's ok'',
                        p_svalue = None, p_units = Some ''m'', p_comment = Some ''distance'',
                        p_dirty = False\<rparr>)"
    using kwd hv k
    by (simp add: from_buffer_def RawHeader_constructor_def ValueHeader_constructor_def ext
        scenario_parse [OF len])
qed

text \<open>C5, witness: the keyword \<open>DISTANCE\<close>.\<close>

theorem scenario_value_keyword_witness:
  "from_buffer (JBuffer (''DISTANCE'' @ scenario_text))
          = Inr (Value \<lparr>p_buffer = ''DISTANCE'' @ scenario_text, p_modified = False, p_value = JStr ''it's ok'',
                        p_svalue = None, p_units = Some ''m'', p_comment = Some ''distance'',
                        p_dirty = False\<rparr>)"
proof -
  have "length ''DISTANCE'' = 8 \<and> trimEnd (Buffer_toString ''DISTANCE'') \<notin> {''COMMENT'', ''HISTORY''}"
    by (simp add: Buffer_toString_def ascii7_def trimEnd_def is_ws_def)
  with scenario_value_keyword show ?thesis by blast
qed

subsection \<open>An empty units bracket\<close>

text \<open>The commentary that C10 is about, in its words: the text begins with the \<open>/\<close>
  marker, and what follows the marker (white space apart) begins with \<open>[\<close>
  immediately followed by \<open>]\<close>.\<close>

definition empty_units_bracket :: "string \<Rightarrow> bool" where
  "empty_units_bracket s =
     (startsWith (CHR ''/'') (trim s) \<and> take 2 (trimStart (drop 1 (trim s))) = ''[]'')"

lemma parse_comment_empty_bracket:
  assumes "empty_units_bracket s"
  shows "parse_comment s = Inl Malformed_units"
proof -
  from assms have sl: "startsWith (CHR ''/'') (trim s)"
    and t: "take 2 (trimStart (drop 1 (trim s))) = ''[]''"
    by (simp_all add: empty_units_bracket_def)
  from t obtain r where r: "trimStart (drop 1 (trim s)) = CHR ''['' # CHR '']'' # r"
    by (cases "trimStart (drop 1 (trim s))"; cases "tl (trimStart (drop 1 (trim s)))") auto
  show ?thesis
    using sl r by (simp add: parse_comment_def startsWith_def indexOf_def)
qed

lemma index_from_range:
  "index_from c xs k = i \<Longrightarrow> i \<noteq> - 1 \<Longrightarrow> int k \<le> i \<and> i < int k + int (length xs)"
proof (induction xs arbitrary: k)
  case Nil
  then show ?case by simp
next
  case (Cons x xs)
  show ?case
  proof (cases "x = c")
    case True
    with Cons.prems show ?thesis by simp
  next
    case False
    with Cons.prems have "index_from c xs (Suc k) = i" by simp
    from Cons.IH [OF this Cons.prems(2)] show ?thesis by simp
  qed
qed

lemma parse_comment_units:
  assumes "parse_comment s = Inr (u, c)"
  shows "u \<noteq> Some []"
proof (cases "startsWith (CHR ''/'') (trim s) \<and> startsWith (CHR ''['') (trimStart (drop 1 (trim s)))")
  case False
  with assms show ?thesis
    by (auto simp: parse_comment_def Let_def split: if_splits)
next
  case True
  define t where "t = trimStart (drop 1 (trim s))"
  define i where "i = indexOf (CHR '']'') 1 t"
  from True assms have i1: "1 < i" and u: "u = Some (substring 1 (nat i) t)"
    by (auto simp: parse_comment_def Let_def t_def i_def split: if_splits)
  from i1 have "i \<noteq> - 1" by simp
  with index_from_range [of "CHR '']''" "drop 1 t" 1 i] have "i < 1 + int (length (drop 1 t))"
    by (simp add: i_def indexOf_def)
  with i1 have "nat i \<le> length t" "1 < nat i" by auto
  then have "length (substring 1 (nat i) t) = nat i - 1"
    by (auto simp: substring_def Let_def min_def max_def)
  with \<open>1 < nat i\<close> u show ?thesis by auto
qed

lemma parse_units:
  assumes "parse h = Inr v"
  shows "p_units v \<noteq> Some []"
proof -
  from assms obtain s u c h1 where pc: "parse_comment s = Inr (u, c)" and v: "v = h1\<lparr>p_units := u, p_comment := c\<rparr>"
    by (auto simp: parse_def parse_string_def Let_def split: if_splits sum.splits prod.splits)
  from parse_comment_units [OF pc] v show ?thesis by simp
qed

lemma from_buffer_units:
  assumes "from_buffer b = Inr h"
  shows "Header_units h \<noteq> Some []"
proof (cases h)
  case (Value v)
  with assms obtain r where r: "RawHeader_constructor b = Inr r"
     and c: "ValueHeader_constructor b JUndefined JUndefined JUndefined = Inr v"
    by (auto simp: from_buffer_def Let_def map_sum_id_Inr split: sum.splits if_splits)
  from c r obtain h0 where "parse h0 = Inr v"
    by (cases b) (auto simp: ValueHeader_constructor_def RawHeader_constructor_def Let_def set_value_def
        update_svalue_def split: sum.splits prod.splits)
  from parse_units [OF this] Value show ?thesis by (simp add: Header_units_def)
qed (simp_all add: Header_units_def)


lemma parse_numeric_empty_bracket:
  assumes len: "length kw = 8" "length v = 20" "length c = 50"
    and nq: "\<not> startsWith QUOTE (trimStart (Buffer_toString (v @ c)))"
    and e: "empty_units_bracket (Buffer_toString c)"
  shows "parse \<lparr>p_buffer = kw @ ''= '' @ v @ c, p_modified = False, p_value = JUndefined,
          p_svalue = None, p_units = None, p_comment = None, p_dirty = False\<rparr> = Inl Malformed_units"
proof -
  have c30: "\<And>h :: ValueHeader. p_buffer h = kw @ ''= '' @ v @ c \<Longrightarrow>
      RawHeader_substring 30 headerSize h = Buffer_toString c"
    using len by (simp add: RawHeader_substring_def subarray_def headerSize_def)
  have c10: "\<And>h :: ValueHeader. p_buffer h = kw @ ''= '' @ v @ c \<Longrightarrow>
      RawHeader_substring 10 headerSize h = Buffer_toString (v @ c)"
    using len by (simp add: RawHeader_substring_def subarray_def headerSize_def)
  show ?thesis
    using nq parse_comment_empty_bracket [OF e]
    by (simp add: parse_def Let_def keySize_def c30 c10)
qed

lemma parse_string_empty_bracket:
  assumes len: "length kw = 8" "length d = 70"
    and q: "startsWith QUOTE (trimStart (Buffer_toString d))"
    and sc: "scan (Buffer_toString d) False 0 = (False, off)"
    and v: "startsWith QUOTE (trimEnd (substring 0 off (Buffer_toString d)))"
       "endsWith QUOTE (trimEnd (substring 0 off (Buffer_toString d)))"
    and e: "empty_units_bracket (drop off (Buffer_toString d))"
  shows "parse \<lparr>p_buffer = kw @ ''= '' @ d, p_modified = False, p_value = JUndefined,
          p_svalue = None, p_units = None, p_comment = None, p_dirty = False\<rparr> = Inl Malformed_units"
proof -
  have c10: "\<And>h :: ValueHeader. p_buffer h = kw @ ''= '' @ d \<Longrightarrow>
      RawHeader_substring 10 headerSize h = Buffer_toString d"
    using len by (simp add: RawHeader_substring_def subarray_def headerSize_def)
  show ?thesis
    using q sc v parse_comment_empty_bracket [OF e]
    by (simp add: parse_def parse_string_def Let_def c10 keySize_def)
qed

text \<open>
  C10: \<open>#parse_comment\<close> raises the malformed-units error on a commentary with an empty
  units bracket; so does the decoding of an 80-byte Value card with such a commentary,
  whether its value is a number or a boolean (the commentary is the 50 bytes from
  offset 30) or a quoted text (the commentary starts at the \<open>/\<close> where the scan of the
  value stopped); and no card that \<open>from_buffer\<close> decodes has the empty string as its
  units.
\<close>

theorem empty_units_bracket_is_malformed:
  "(empty_units_bracket s \<longrightarrow> parse_comment s = Inl Malformed_units)
   \<and> (length kw = 8 \<and> trimEnd (Buffer_toString kw) \<notin> {''COMMENT'', ''HISTORY''}
        \<and> length v = 20 \<and> length c = 50
        \<and> \<not> startsWith QUOTE (trimStart (Buffer_toString (v @ c)))
        \<and> empty_units_bracket (Buffer_toString c)
      \<longrightarrow> from_buffer (JBuffer (kw @ ''= '' @ v @ c)) = Inl Malformed_units)
   \<and> (length kw' = 8 \<and> trimEnd (Buffer_toString kw') \<notin> {''COMMENT'', ''HISTORY''}
        \<and> length d = 70
        \<and> startsWith QUOTE (trimStart (Buffer_toString d))
        \<and> scan (Buffer_toString d) False 0 = (False, off)
        \<and> startsWith QUOTE (trimEnd (substring 0 off (Buffer_toString d)))
        \<and> endsWith QUOTE (trimEnd (substring 0 off (Buffer_toString d)))
        \<and> empty_units_bracket (drop off (Buffer_toString d))
      \<longrightarrow> from_buffer (JBuffer (kw' @ ''= '' @ d)) = Inl Malformed_units)
   \<and> (from_buffer b = Inr h \<longrightarrow> Header_units h \<noteq> Some [])"
proof (intro conjI impI)
  assume "empty_units_bracket s"
  then show "parse_comment s = Inl Malformed_units" by (rule parse_comment_empty_bracket)
next
  assume a: "length kw = 8 \<and> trimEnd (Buffer_toString kw) \<notin> {''COMMENT'', ''HISTORY''}
        \<and> length v = 20 \<and> length c = 50
        \<and> \<not> startsWith QUOTE (trimStart (Buffer_toString (v @ c)))
        \<and> empty_units_bracket (Buffer_toString c)"
  then have "parse \<lparr>p_buffer = kw @ ''= '' @ v @ c, p_modified = False, p_value = JUndefined,
          p_svalue = None, p_units = None, p_comment = None, p_dirty = False\<rparr> = Inl Malformed_units"
    using parse_numeric_empty_bracket [of kw v c] by simp
  with a from_buffer_value_card [of kw "v @ c"]
  show "from_buffer (JBuffer (kw @ ''= '' @ v @ c)) = Inl Malformed_units" by simp
next
  assume a: "length kw' = 8 \<and> trimEnd (Buffer_toString kw') \<notin> {''COMMENT'', ''HISTORY''}
        \<and> length d = 70
        \<and> startsWith QUOTE (trimStart (Buffer_toString d))
        \<and> scan (Buffer_toString d) False 0 = (False, off)
        \<and> startsWith QUOTE (trimEnd (substring 0 off (Buffer_toString d)))
        \<and> endsWith QUOTE (trimEnd (substring 0 off (Buffer_toString d)))
        \<and> empty_units_bracket (drop off (Buffer_toString d))"
  then have "parse \<lparr>p_buffer = kw' @ ''= '' @ d, p_modified = False, p_value = JUndefined,
          p_svalue = None, p_units = None, p_comment = None, p_dirty = False\<rparr> = Inl Malformed_units"
    using parse_string_empty_bracket [of kw' d off] by simp
  with a from_buffer_value_card [of kw' d]
  show "from_buffer (JBuffer (kw' @ ''= '' @ d)) = Inl Malformed_units" by simp
next
  assume "from_buffer b = Inr h"
  then show "Header_units h \<noteq> Some []" by (rule from_buffer_units)
qed

text \<open>A card with units, for the witness of C10.\<close>

definition exptime_units_card :: string where
  "exptime_units_card = ''EXPTIME =                   30 / [s] exposure                                   ''"

text \<open>C10, witness: a commentary, a numeric card and a text card with \<open>[]\<close>, and a card
  decoded with the units \<open>s\<close>.\<close>

theorem empty_units_bracket_is_malformed_witness:
  "parse_comment '' / []  seconds '' = Inl Malformed_units
   \<and> from_buffer (JBuffer (''EXPTIME '' @ ''= '' @ ''                  30'' @ '' / [] seconds                                     '')) = Inl Malformed_units
   \<and> from_buffer (JBuffer (''OBJECT  '' @ ''= '' @ ([QUOTE] @ ''M31     '' @ [QUOTE] @ '' / [] name                                                  ''))) = Inl Malformed_units
   \<and> from_buffer (JBuffer exptime_units_card)
       = Inr (Value \<lparr>p_buffer = exptime_units_card, p_modified = False, p_value = JNum (Fin 30),
                     p_svalue = None, p_units = Some ''s'', p_comment = Some ''exposure'',
                     p_dirty = False\<rparr>)
   \<and> Header_units (Value \<lparr>p_buffer = exptime_units_card, p_modified = False, p_value = JNum (Fin 30),
                     p_svalue = None, p_units = Some ''s'', p_comment = Some ''exposure'',
                     p_dirty = False\<rparr>) \<noteq> Some []"
proof -
  let ?c = "'' / [] seconds                                     ''"
  let ?d = "[QUOTE] @ ''M31     '' @ [QUOTE] @ '' / [] name                                                  ''"
  let ?h = "Value \<lparr>p_buffer = exptime_units_card, p_modified = False, p_value = JNum (Fin 30),
                     p_svalue = None, p_units = Some ''s'', p_comment = Some ''exposure'',
                     p_dirty = False\<rparr>"
  have e1: "empty_units_bracket '' / []  seconds ''"
    by (simp add: empty_units_bracket_def trim_def trimStart_def trimEnd_def is_ws_def startsWith_def)
  have e2: "length ''EXPTIME '' = 8 \<and> trimEnd (Buffer_toString ''EXPTIME '') \<notin> {''COMMENT'', ''HISTORY''}
        \<and> length ''                  30'' = 20 \<and> length ?c = 50
        \<and> \<not> startsWith QUOTE (trimStart (Buffer_toString (''                  30'' @ ?c)))
        \<and> empty_units_bracket (Buffer_toString ?c)"
    by (simp add: empty_units_bracket_def trim_def trimStart_def trimEnd_def is_ws_def startsWith_def
          Buffer_toString_def ascii7_def QUOTE_def)
  have e3: "length ''OBJECT  '' = 8 \<and> trimEnd (Buffer_toString ''OBJECT  '') \<notin> {''COMMENT'', ''HISTORY''}
        \<and> length ?d = 70
        \<and> startsWith QUOTE (trimStart (Buffer_toString ?d))
        \<and> scan (Buffer_toString ?d) False 0 = (False, 11)
        \<and> startsWith QUOTE (trimEnd (substring 0 11 (Buffer_toString ?d)))
        \<and> endsWith QUOTE (trimEnd (substring 0 11 (Buffer_toString ?d)))
        \<and> empty_units_bracket (drop 11 (Buffer_toString ?d))"
    by (simp add: empty_units_bracket_def trim_def trimStart_def trimEnd_def is_ws_def startsWith_def
          endsWith_def substring_def Buffer_toString_def ascii7_def QUOTE_def SLASH_def)
  have e4: "from_buffer (JBuffer exptime_units_card) = Inr ?h"
    by (simp add: exptime_units_card_def from_buffer_def RawHeader_constructor_def
          ValueHeader_constructor_def extend_raw keyword_def has_value_def
          parse_def parse_comment_def Let_def RawHeader_substring_def subarray_def keySize_def
          headerSize_def valueSize_def Buffer_toString_def ascii7_def QUOTE_def trim_def trimStart_def
          trimEnd_def is_ws_def startsWith_def substring_def indexOf_def Number_js_def
          parse_unsigned_decimal_def is_digit_def parse_exponent_def digits_value_def digit_val_def
          pow10_def)
  from empty_units_bracket_is_malformed
    [of "'' / []  seconds ''" "''EXPTIME ''" "''                  30''" ?c "''OBJECT  ''" ?d 11
        "JBuffer exptime_units_card" ?h]
    e1 e2 e3 e4
  show ?thesis by (simp del: append.simps append_Cons append_Nil)
qed

section \<open>Properties of the HDU layout\<close>

subsection \<open>The cards that \<open>#read_headers\<close> reads\<close>

text \<open>The \<open>k\<close>-th card of a block: \<open>buf.subarray(j, j + headerSize)\<close> at \<open>j = headerSize * k\<close>.\<close>

definition card_slot :: "nat \<Rightarrow> string \<Rightarrow> string" where
  "card_slot k buf = subarray (headerSize * k) (headerSize * k + headerSize) buf"

lemma read_cards_spec:
  "read_cards buf j hs = Inr (hs', b) \<Longrightarrow> j = headerSize * m \<Longrightarrow> m \<le> 36 \<Longrightarrow>
   \<exists>new. hs' = hs @ new
     \<and> (\<forall>k < length new. from_buffer (JBuffer (card_slot (m + k) buf)) = Inr (new ! k))
     \<and> (\<forall>h \<in> set (butlast new). Header_keyword h \<noteq> ''END'')
     \<and> (if b then new \<noteq> [] \<and> Header_keyword (last new) = ''END'' \<and> m + length new \<le> 36
         else m + length new = 36 \<and> (\<forall>h \<in> set new. Header_keyword h \<noteq> ''END''))"
proof (induction buf j hs arbitrary: m rule: read_cards.induct)
  case (1 buf j hs)
  from "1.prems"(1) have eq:
    "(if j < blockSize then
        (case from_buffer (JBuffer (subarray j (j + headerSize) buf)) of
           Inl e \<Rightarrow> Inl e
         | Inr h \<Rightarrow>
             if Header_keyword h = ''END'' then Inr (hs @ [h], True)
             else read_cards buf (j + headerSize) (hs @ [h]))
      else Inr (hs, False)) = Inr (hs', b)"
    by (subst (asm) read_cards.simps)
  show ?case
  proof (cases "j < blockSize")
    case False
    with eq have "hs' = hs" "\<not> b" by simp_all
    moreover from False "1.prems" have "m = 36" by (simp add: blockSize_def headerSize_def)
    ultimately show ?thesis by simp
  next
    case True
    with "1.prems" have m: "m < 36" by (simp add: blockSize_def headerSize_def)
    from True eq obtain h where
      h: "from_buffer (JBuffer (subarray j (j + headerSize) buf)) = Inr h"
      by (simp split: sum.splits)
    then have hk: "from_buffer (JBuffer (card_slot m buf)) = Inr h"
      using "1.prems" by (simp add: card_slot_def)
    show ?thesis
    proof (cases "Header_keyword h = ''END''")
      case e: True
      with True h eq have "hs' = hs @ [h]" "b"
        by simp_all
      with e hk m show ?thesis by (intro exI [of _ "[h]"]) simp
    next
      case ne: False
      with True h eq have r: "read_cards buf (j + headerSize) (hs @ [h]) = Inr (hs', b)"
        by simp
      have j': "j + headerSize = headerSize * Suc m" using "1.prems" by simp
      from m have m': "Suc m \<le> 36" by simp
      from "1.IH" [OF True h ne r j' m'] obtain new where
        n1: "hs' = (hs @ [h]) @ new"
        and n2: "\<forall>k < length new. from_buffer (JBuffer (card_slot (Suc m + k) buf)) = Inr (new ! k)"
        and n3: "\<forall>h \<in> set (butlast new). Header_keyword h \<noteq> ''END''"
        and n4: "if b then new \<noteq> [] \<and> Header_keyword (last new) = ''END'' \<and> Suc m + length new \<le> 36
                 else Suc m + length new = 36 \<and> (\<forall>h \<in> set new. Header_keyword h \<noteq> ''END'')"
        by blast
      have a2: "\<forall>k < length (h # new). from_buffer (JBuffer (card_slot (m + k) buf)) = Inr ((h # new) ! k)"
      proof (intro allI impI)
        fix k assume "k < length (h # new)"
        then show "from_buffer (JBuffer (card_slot (m + k) buf)) = Inr ((h # new) ! k)"
          using hk n2 by (cases k) simp_all
      qed
      have a3: "\<forall>x \<in> set (butlast (h # new)). Header_keyword x \<noteq> ''END''"
        using ne n3 by (cases new) auto
      have a4: "if b then h # new \<noteq> [] \<and> Header_keyword (last (h # new)) = ''END'' \<and> m + length (h # new) \<le> 36
                 else m + length (h # new) = 36 \<and> (\<forall>x \<in> set (h # new). Header_keyword x \<noteq> ''END'')"
        using n4 ne by (cases b) auto
      from n1 a2 a3 a4 show ?thesis by (intro exI [of _ "h # new"]) simp
    qed
  qed
qed

lemma read_headers_spec:
  "read_headers fs self it hs = Inr (hs', it') \<Longrightarrow>
   \<exists>new. hs' = hs @ new \<and> new \<noteq> []
     \<and> Header_keyword (last new) = ''END''
     \<and> (\<forall>h \<in> set (butlast new). Header_keyword h \<noteq> ''END'')
     \<and> (\<forall>k < length new. \<exists>buf. block fs self (int (cur_n it + k div 36)) = Inr (Some buf)
            \<and> from_buffer (JBuffer (card_slot (k mod 36) buf)) = Inr (new ! k))
     \<and> cur_n it' = cur_n it + (length new + 35) div 36"
proof (induction fs self it hs arbitrary: hs' it' rule: read_headers.induct)
  case (1 fs self it hs)
  from "1.prems" obtain buf it1 where n: "cursor_next fs self it = Inr (Some buf, it1)"
    by (subst (asm) read_headers.simps) (auto split: sum.splits option.splits)
  note c = cursor_next_Some [OF n]
  from "1.prems" n obtain hs1 b where r: "read_cards buf 0 hs = Inr (hs1, b)"
    by (subst (asm) read_headers.simps) (auto split: sum.splits)
  from read_cards_spec [OF r, of 0] obtain new1 where
    n1: "hs1 = hs @ new1"
    and n2: "\<forall>k < length new1. from_buffer (JBuffer (card_slot k buf)) = Inr (new1 ! k)"
    and n3: "\<forall>h \<in> set (butlast new1). Header_keyword h \<noteq> ''END''"
    and n4: "if b then new1 \<noteq> [] \<and> Header_keyword (last new1) = ''END'' \<and> length new1 \<le> 36
             else length new1 = 36 \<and> (\<forall>h \<in> set new1. Header_keyword h \<noteq> ''END'')"
    by (auto simp: headerSize_def cong: if_cong)
  show ?case
  proof (cases b)
    case True
    with "1.prems" n r have it': "it' = it1" and hs': "hs' = hs1"
      by (subst (asm) read_headers.simps, simp)+
    from True n4 have l: "new1 \<noteq> []" "length new1 \<le> 36" "Header_keyword (last new1) = ''END''"
      by simp_all
    then have d: "(length new1 + 35) div 36 = 1" by (cases new1) simp_all
    have "\<forall>k < length new1. \<exists>buf. block fs self (int (cur_n it + k div 36)) = Inr (Some buf)
            \<and> from_buffer (JBuffer (card_slot (k mod 36) buf)) = Inr (new1 ! k)"
      using n2 l c by auto
    with n1 n3 l d it' hs' c show ?thesis by (intro exI [of _ new1]) simp
  next
    case False
    with r have r': "read_cards buf 0 hs = Inr (hs1, False)" by simp
    with "1.prems" n have rh: "read_headers fs self it1 hs1 = Inr (hs', it')"
      by (subst (asm) read_headers.simps) simp
    from "1.IH" [OF n refl refl r' refl refl rh] obtain new2 where
      m1: "hs' = hs1 @ new2" and m0: "new2 \<noteq> []"
      and m2: "Header_keyword (last new2) = ''END''"
      and m3: "\<forall>h \<in> set (butlast new2). Header_keyword h \<noteq> ''END''"
      and m4: "\<forall>k < length new2. \<exists>buf. block fs self (int (cur_n it1 + k div 36)) = Inr (Some buf)
            \<and> from_buffer (JBuffer (card_slot (k mod 36) buf)) = Inr (new2 ! k)"
      and m5: "cur_n it' = cur_n it1 + (length new2 + 35) div 36"
      by blast
    from False n4 have l: "length new1 = 36" and ne: "\<forall>h \<in> set new1. Header_keyword h \<noteq> ''END''"
      by simp_all
    have it1: "cur_n it1 = cur_n it + 1" using c by simp
    have a4: "\<forall>k < length (new1 @ new2). \<exists>buf. block fs self (int (cur_n it + k div 36)) = Inr (Some buf)
            \<and> from_buffer (JBuffer (card_slot (k mod 36) buf)) = Inr ((new1 @ new2) ! k)"
    proof (intro allI impI)
      fix k assume k: "k < length (new1 @ new2)"
      show "\<exists>buf. block fs self (int (cur_n it + k div 36)) = Inr (Some buf)
            \<and> from_buffer (JBuffer (card_slot (k mod 36) buf)) = Inr ((new1 @ new2) ! k)"
      proof (cases "k < 36")
        case True
        with n2 l c show ?thesis by (auto simp: nth_append)
      next
        case False
        define k' where "k' = k - 36"
        from False have k36: "k = k' + 36" by (simp add: k'_def)
        with k l have "k' < length new2" by simp
        with m4 obtain buf' where "block fs self (int (cur_n it1 + k' div 36)) = Inr (Some buf')"
          and "from_buffer (JBuffer (card_slot (k' mod 36) buf')) = Inr (new2 ! k')" by blast
        moreover have "cur_n it1 + k' div 36 = cur_n it + k div 36" using it1 k36 by simp
        moreover have "k' mod 36 = k mod 36" using k36 by simp
        moreover have "(new1 @ new2) ! k = new2 ! k'" using l k36 by (simp add: nth_append)
        ultimately show ?thesis by auto
      qed
    qed
    have a3: "\<forall>h \<in> set (butlast (new1 @ new2)). Header_keyword h \<noteq> ''END''"
      using m0 m3 ne by (auto simp: butlast_append)
    have a5: "cur_n it' = cur_n it + (length (new1 @ new2) + 35) div 36"
      using m5 it1 l by simp
    from m1 n1 m0 m2 a3 a4 a5 show ?thesis
      by (intro exI [of _ "new1 @ new2"]) simp
  qed
qed

lemma HDU_constructor_headers:
  assumes "HDU_constructor fs self it = Inr (hdu, it')"
  shows "\<exists>it1. read_headers fs self it [] = Inr (p_headers hdu, it1) \<and> p_start hdu = cur_n it1"
proof -
  from assms obtain hs it1 where r: "read_headers fs self it [] = Inr (hs, it1)"
    by (auto simp: HDU_constructor_def split: sum.splits)
  with assms have "p_headers hdu = hs \<and> p_start hdu = cur_n it1"
    by (auto simp: HDU_constructor_def Let_def cursor_position_def
        split: sum.splits option.splits if_splits)
  with r show ?thesis by auto
qed

text \<open>
  C3: the cards of an HDU are the cards decoded from the consecutive 80-byte slots of the
  blocks at the cursor, from the first slot up to and including the first card whose
  keyword is \<open>END\<close>: the last card stored is that \<open>END\<close> card, no card before it has
  the keyword \<open>END\<close>, the \<open>k\<close>-th card comes from slot \<open>k mod 36\<close> of block
  \<open>k div 36\<close> after the cursor's position, and the cursor has taken only the blocks
  that hold these cards. No later slot and no later block gives a card to this HDU.
\<close>

theorem header_parsing_stops_at_END:
  assumes "HDU_constructor fs self it = Inr (hdu, it')"
  shows "p_headers hdu \<noteq> []
     \<and> Header_keyword (last (p_headers hdu)) = ''END''
     \<and> (\<forall>h \<in> set (butlast (p_headers hdu)). Header_keyword h \<noteq> ''END'')
     \<and> (\<forall>k < length (p_headers hdu).
           \<exists>buf. block fs self (int (cur_n it + k div 36)) = Inr (Some buf)
             \<and> from_buffer (JBuffer (card_slot (k mod 36) buf)) = Inr (p_headers hdu ! k))
     \<and> p_start hdu = cur_n it + (length (p_headers hdu) + 35) div 36"
proof -
  from HDU_constructor_headers [OF assms] obtain it1 where
    r: "read_headers fs self it [] = Inr (p_headers hdu, it1)" and s: "p_start hdu = cur_n it1"
    by blast
  from read_headers_spec [OF r] s show ?thesis by auto
qed

subsection \<open>The data extent\<close>

text \<open>
  C6: when the cards have been read and the cursor stands at \<open>it1\<close> after the \<open>END\<close>
  card, and the \<open>NAXIS\<close> card has the value 0, the constructor returns the HDU with
  \<open>start = end =\<close> the position of \<open>it1\<close>, and the cursor \<open>it1\<close> itself: nothing is
  skipped.
\<close>

theorem naxis_zero_empty_extent:
  assumes r: "read_headers fs self it [] = Inr (hs, it1)"
    and nx: "find_header ''NAXIS'' hs = Some nx"
    and v: "Header_value_of nx = JNum (Fin 0)"
  shows "HDU_constructor fs self it
     = Inr (\<lparr>p_headers = hs, p_size = Fin 0, p_start = cursor_position it1,
             p_end = Fin (of_nat (cursor_position it1))\<rparr>, it1)"
  using r nx v by (simp add: HDU_constructor_def Let_def ToNumber_def num_less_def)




section \<open>Two files\<close>

text \<open>
  What \<open>from_buffer\<close> gives for a card read from a file, the cards of two small files,
  and the files: a header alone (\<open>NAXIS = 0\<close>, one block), and a header with one
  block of data (\<open>BITPIX = 16\<close>, \<open>NAXIS = 1\<close>, \<open>NAXIS1 = 100\<close>). Each is evaluated one
  card at a time.
\<close>

definition decoded_value :: "string \<Rightarrow> jsvalue \<Rightarrow> string option \<Rightarrow> string option \<Rightarrow> Header" where
  "decoded_value buf v u c =
     Value \<lparr>p_buffer = buf, p_modified = False, p_value = v, p_svalue = None, p_units = u,
            p_comment = c, p_dirty = False\<rparr>"

definition decoded_raw :: "string \<Rightarrow> Header" where
  "decoded_raw buf = Raw \<lparr>p_buffer = buf, p_modified = False\<rparr>"

definition card_SIMPLE :: string where
  "card_SIMPLE = ''SIMPLE  =                    T / conforms to FITS                               ''"

definition card_BITPIX8 :: string where
  "card_BITPIX8 = ''BITPIX  =                    8                                                  ''"

definition card_NAXIS0 :: string where
  "card_NAXIS0 = ''NAXIS   =                    0                                                  ''"

definition card_END :: string where
  "card_END = ''END                                                                             ''"

definition card_BITPIX16 :: string where
  "card_BITPIX16 = ''BITPIX  =                   16                                                  ''"

definition card_NAXIS1 :: string where
  "card_NAXIS1 = ''NAXIS   =                    1                                                  ''"

definition card_NAXIS1_100 :: string where
  "card_NAXIS1_100 = ''NAXIS1  =                  100                                                  ''"

lemma length_cards:
  "length card_SIMPLE = 80" "length card_BITPIX8 = 80" "length card_NAXIS0 = 80" "length card_END = 80" "length card_BITPIX16 = 80" "length card_NAXIS1 = 80" "length card_NAXIS1_100 = 80"
  by (simp_all add: card_SIMPLE_def card_BITPIX8_def card_NAXIS0_def card_END_def card_BITPIX16_def card_NAXIS1_def card_NAXIS1_100_def)

lemmas codec_defs = from_buffer_def RawHeader_constructor_def
          ValueHeader_constructor_def extend_raw keyword_def has_value_def
          parse_def parse_comment_def Let_def RawHeader_substring_def subarray_def keySize_def
          headerSize_def valueSize_def Buffer_toString_def ascii7_def QUOTE_def trim_def trimStart_def
          trimEnd_def is_ws_def startsWith_def substring_def indexOf_def Number_js_def
          parse_unsigned_decimal_def is_digit_def parse_exponent_def digits_value_def digit_val_def
          pow10_def decoded_value_def decoded_raw_def Header_keyword_def

lemma decode_SIMPLE:
  "from_buffer (JBuffer card_SIMPLE) = Inr (decoded_value card_SIMPLE (JBool True) None (Some ''conforms to FITS''))"
  by (simp add: card_SIMPLE_def codec_defs)

lemma decode_BITPIX8:
  "from_buffer (JBuffer card_BITPIX8) = Inr (decoded_value card_BITPIX8 (JNum (Fin 8)) None None)"
  by (simp add: card_BITPIX8_def codec_defs)

lemma decode_NAXIS0:
  "from_buffer (JBuffer card_NAXIS0) = Inr (decoded_value card_NAXIS0 (JNum (Fin 0)) None None)"
  by (simp add: card_NAXIS0_def codec_defs)

lemma decode_END:
  "from_buffer (JBuffer card_END) = Inr (decoded_raw card_END)"
  by (simp add: card_END_def codec_defs)




lemma keywords_of_cards:
  "Header_keyword (decoded_value card_SIMPLE v u c) = ''SIMPLE''"
  "Header_keyword (decoded_value card_BITPIX8 v u c) = ''BITPIX''"
  "Header_keyword (decoded_value card_NAXIS0 v u c) = ''NAXIS''"
  "Header_keyword (decoded_raw card_END) = ''END''"
  "Header_keyword (decoded_value card_BITPIX16 v u c) = ''BITPIX''"
  "Header_keyword (decoded_value card_NAXIS1 v u c) = ''NAXIS''"
  "Header_keyword (decoded_value card_NAXIS1_100 v u c) = ''NAXIS1''"
  by (simp_all add: card_SIMPLE_def card_BITPIX8_def card_NAXIS0_def card_END_def card_BITPIX16_def
      card_NAXIS1_def card_NAXIS1_100_def codec_defs)


lemma read_cards_END:
  "j < blockSize \<Longrightarrow> from_buffer (JBuffer (subarray j (j + headerSize) buf)) = Inr h \<Longrightarrow>
   Header_keyword h = ''END'' \<Longrightarrow> read_cards buf j hs = Inr (hs @ [h], True)"
  by (subst read_cards.simps) simp

lemma read_cards_next:
  "j < blockSize \<Longrightarrow> from_buffer (JBuffer (subarray j (j + headerSize) buf)) = Inr h \<Longrightarrow>
   Header_keyword h \<noteq> ''END'' \<Longrightarrow> read_cards buf j hs = read_cards buf (j + headerSize) (hs @ [h])"
  by (subst read_cards.simps) simp

definition minimal_file :: string where
  "minimal_file = card_SIMPLE @ card_BITPIX8 @ card_NAXIS0 @ card_END @ replicate 2560 (CHR '' '')"

definition minimal_cards :: "Header list" where
  "minimal_cards =
     [decoded_value card_SIMPLE (JBool True) None (Some ''conforms to FITS''),
      decoded_value card_BITPIX8 (JNum (Fin 8)) None None,
      decoded_value card_NAXIS0 (JNum (Fin 0)) None None,
      decoded_raw card_END]"

definition opened :: "string \<Rightarrow> fs_state" where
  "opened bytes = \<lparr>fs_files = (\<lambda>p. if p = ''image.fits'' then Some bytes else None),
                   fs_fds = [Some ''image.fits'']\<rparr>"

definition self_of :: "nat \<Rightarrow> File" where
  "self_of n = \<lparr>p_fd = 0, p_blockCount = n, p_hdus = []\<rparr>"

lemma length_minimal_file: "length minimal_file = 2880"
  by (simp add: minimal_file_def length_cards)

lemma read_cards_minimal: "read_cards minimal_file 0 [] = Inr (minimal_cards, True)"
proof -
  have s0: "subarray 0 (0 + headerSize) minimal_file = card_SIMPLE"
    and s1: "subarray 80 (80 + headerSize) minimal_file = card_BITPIX8"
    and s2: "subarray 160 (160 + headerSize) minimal_file = card_NAXIS0"
    and s3: "subarray 240 (240 + headerSize) minimal_file = card_END"
    by (simp_all add: subarray_def headerSize_def minimal_file_def length_cards)
  have "read_cards minimal_file 0 [] = read_cards minimal_file 80 [decoded_value card_SIMPLE (JBool True) None (Some ''conforms to FITS'')]"
    using read_cards_next [of 0 minimal_file _ "[]"] s0 decode_SIMPLE
    by (simp add: keywords_of_cards blockSize_def headerSize_def)
  also have "\<dots> = read_cards minimal_file 160 (take 2 minimal_cards)"
    using read_cards_next [of 80 minimal_file] s1 decode_BITPIX8
    by (simp add: keywords_of_cards blockSize_def headerSize_def minimal_cards_def)
  also have "\<dots> = read_cards minimal_file 240 (take 3 minimal_cards)"
    using read_cards_next [of 160 minimal_file] s2 decode_NAXIS0
    by (simp add: keywords_of_cards blockSize_def headerSize_def minimal_cards_def)
  also have "\<dots> = Inr (minimal_cards, True)"
    using read_cards_END [of 240 minimal_file] s3 decode_END
    by (simp add: keywords_of_cards blockSize_def headerSize_def minimal_cards_def)
  finally show ?thesis .
qed

lemma block_minimal: "block (opened minimal_file) (self_of 1) 0 = Inr (Some minimal_file)"
  by (simp add: block_def opened_def self_of_def readSync_def fd_bytes_def blockSize_def
      length_minimal_file)

lemma read_headers_minimal:
  "read_headers (opened minimal_file) (self_of 1) (blocks (self_of 1)) []
     = Inr (minimal_cards, \<lparr>cur_n = 1, cur_end = 1\<rparr>)"
  using block_minimal
  by (subst read_headers.simps)
     (simp add: cursor_next_def cursor_done_def blocks_def block_iterator_def self_of_def
        read_cards_minimal)

lemma find_minimal:
  "find_header ''NAXIS'' minimal_cards = Some (decoded_value card_NAXIS0 (JNum (Fin 0)) None None)"
  by (simp add: find_header_def minimal_cards_def keywords_of_cards)

definition minimal_hdu :: HDU where
  "minimal_hdu = \<lparr>p_headers = minimal_cards, p_size = Fin 0, p_start = 1, p_end = Fin 1\<rparr>"

lemma HDU_minimal:
  "HDU_constructor (opened minimal_file) (self_of 1) (blocks (self_of 1))
     = Inr (minimal_hdu, \<lparr>cur_n = 1, cur_end = 1\<rparr>)"
  unfolding HDU_constructor_def read_headers_minimal
  by (simp add: find_minimal decoded_value_def
      Header_value_of_def ToNumber_def num_less_def cursor_position_def minimal_hdu_def)

text \<open>C3, witness: the HDU of the first file.\<close>

theorem header_parsing_stops_at_END_witness:
  "HDU_constructor (opened minimal_file) (self_of 1) (blocks (self_of 1))
     = Inr (minimal_hdu, \<lparr>cur_n = 1, cur_end = 1\<rparr>)
   \<and> p_headers minimal_hdu \<noteq> []
   \<and> Header_keyword (last (p_headers minimal_hdu)) = ''END''
   \<and> p_start minimal_hdu = cur_n (blocks (self_of 1)) + (length (p_headers minimal_hdu) + 35) div 36"
  using header_parsing_stops_at_END [OF HDU_minimal] HDU_minimal by blast

text \<open>C6, witness: the first file, whose \<open>NAXIS\<close> card has the value 0.\<close>

theorem naxis_zero_empty_extent_witness:
  "read_headers (opened minimal_file) (self_of 1) (blocks (self_of 1)) []
     = Inr (minimal_cards, \<lparr>cur_n = 1, cur_end = 1\<rparr>)
   \<and> find_header ''NAXIS'' minimal_cards = Some (decoded_value card_NAXIS0 (JNum (Fin 0)) None None)
   \<and> Header_value_of (decoded_value card_NAXIS0 (JNum (Fin 0)) None None) = JNum (Fin 0)
   \<and> HDU_constructor (opened minimal_file) (self_of 1) (blocks (self_of 1))
     = Inr (\<lparr>p_headers = minimal_cards, p_size = Fin 0, p_start = 1, p_end = Fin 1\<rparr>,
            \<lparr>cur_n = 1, cur_end = 1\<rparr>)"
proof -
  have v: "Header_value_of (decoded_value card_NAXIS0 (JNum (Fin 0)) None None) = JNum (Fin 0)"
    by (simp add: decoded_value_def Header_value_of_def)
  from naxis_zero_empty_extent [OF read_headers_minimal find_minimal v]
    read_headers_minimal find_minimal v
  show ?thesis by (simp add: cursor_position_def)
qed

lemma upper_naxis: "trim (toUpperCase ''naxis'') = ''NAXIS''"
  by code_simp

text \<open>
  C8 fails on the code: \<open>headers(keyword)\<close> upper-cases and trims its argument before it
  compares, \<open>header(keyword)\<close> compares the argument as it is. On the HDU of the first
  file \<open>header('naxis')\<close> finds nothing, where \<open>headers('naxis')\<close> and \<open>header('NAXIS')\<close>
  find the \<open>NAXIS\<close> card.
\<close>

theorem header_lookup_is_case_sensitive:
  "HDU_constructor (opened minimal_file) (self_of 1) (blocks (self_of 1))
     = Inr (minimal_hdu, \<lparr>cur_n = 1, cur_end = 1\<rparr>)
   \<and> HDU_header ''naxis'' minimal_hdu = None
   \<and> HDU_headers (JStr ''naxis'') minimal_hdu
       = Inr [decoded_value card_NAXIS0 (JNum (Fin 0)) None None]
   \<and> HDU_header ''NAXIS'' minimal_hdu = Some (decoded_value card_NAXIS0 (JNum (Fin 0)) None None)"
proof (intro conjI)
  show "HDU_constructor (opened minimal_file) (self_of 1) (blocks (self_of 1))
     = Inr (minimal_hdu, \<lparr>cur_n = 1, cur_end = 1\<rparr>)" by (rule HDU_minimal)
  show "HDU_header ''naxis'' minimal_hdu = None"
    by (simp add: HDU_header_def find_header_def minimal_hdu_def minimal_cards_def keywords_of_cards)
  show "HDU_headers (JStr ''naxis'') minimal_hdu
       = Inr [decoded_value card_NAXIS0 (JNum (Fin 0)) None None]"
    by (simp add: HDU_headers_def upper_naxis minimal_hdu_def minimal_cards_def keywords_of_cards)
  show "HDU_header ''NAXIS'' minimal_hdu = Some (decoded_value card_NAXIS0 (JNum (Fin 0)) None None)"
    by (simp add: HDU_header_def find_header_def minimal_hdu_def minimal_cards_def keywords_of_cards)
qed















section \<open>Properties of the File constructor\<close>

text \<open>The two errors of the validation of the size: the empty file and the incomplete
  blocks.\<close>

definition validation_error :: "error \<Rightarrow> bool" where
  "validation_error e = (e = Empty_file \<or> e = Incomplete_blocks)"

subsection \<open>The errors that decoding and layout can raise\<close>

lemma Buffer_write_error: "Buffer_write buf data offset len = Inl e \<Longrightarrow> e = RangeError"
  by (simp add: Buffer_write_def Let_def split: if_splits)

lemma RawHeader_write_error: "fst (RawHeader_write data offset len h) = Inl e \<Longrightarrow> e = RangeError"
  by (auto simp: RawHeader_write_def Let_def split: sum.splits prod.splits dest: Buffer_write_error)

lemma RawHeader_constructor_error:
  "RawHeader_constructor arg = Inl e \<Longrightarrow> e = TypeError \<or> e = RangeError"
proof (cases arg)
  case (JStr s)
  assume "RawHeader_constructor arg = Inl e"
  with JStr have "fst (set_keyword s \<lparr>p_buffer = replicate headerSize (CHR '' ''), p_modified = False\<rparr>) = Inl e"
    by (auto simp: RawHeader_constructor_def split: prod.splits sum.splits)
  then show ?thesis unfolding set_keyword_def Let_def by (auto dest: RawHeader_write_error)
qed (simp_all add: RawHeader_constructor_def)

lemma set_text_error: "fst (set_text arg h) = Inl e \<Longrightarrow> e = TypeError \<or> e = RangeError"
proof (cases arg)
  case (JStr t)
  assume a: "fst (set_text arg h) = Inl e"
  define w where "w = RawHeader_write (padEnd (headerSize - keySize) (substring 0 (headerSize - keySize) t))
     keySize (headerSize - keySize) h"
  from a JStr have "fst w = Inl e"
    by (auto simp: set_text_def Let_def w_def split: prod.splits sum.splits)
  then show ?thesis unfolding w_def by (auto dest: RawHeader_write_error)
qed (simp_all add: set_text_def)

lemma CommentHeader_constructor_error:
  "CommentHeader_constructor arg t = Inl e \<Longrightarrow> e = TypeError \<or> e = RangeError"
proof -
  assume a: "CommentHeader_constructor arg t = Inl e"
  show ?thesis
  proof (cases "RawHeader_constructor arg")
    case (Inl e')
    with a have "e' = e" by (simp add: CommentHeader_constructor_def)
    with Inl show ?thesis by (auto dest: RawHeader_constructor_error)
  next
    case (Inr h)
    with a have "fst (set_text t h) = Inl e"
      by (cases arg) (auto simp: CommentHeader_constructor_def split: prod.splits sum.splits)
    then show ?thesis by (rule set_text_error)
  qed
qed

lemma parse_comment_error: "parse_comment s = Inl e \<Longrightarrow> e = Malformed_units"
  by (simp add: parse_comment_def Let_def split: if_splits)

lemma parse_error: "parse h = Inl e \<Longrightarrow> e = Malformed_units \<or> e = String_parser_error"
  by (auto simp: parse_def parse_string_def Let_def
      split: if_splits sum.splits prod.splits dest: parse_comment_error)

lemma ValueHeader_constructor_error:
  "ValueHeader_constructor arg JUndefined JUndefined JUndefined = Inl e \<Longrightarrow>
     e = TypeError \<or> e = RangeError \<or> e = Malformed_units \<or> e = String_parser_error"
proof -
  assume a: "ValueHeader_constructor arg JUndefined JUndefined JUndefined = Inl e"
  show ?thesis
  proof (cases "RawHeader_constructor arg")
    case (Inl e')
    with a have "e' = e" by (simp add: ValueHeader_constructor_def)
    with Inl show ?thesis by (auto dest: RawHeader_constructor_error)
  next
    case (Inr r)
    with a show ?thesis
      by (cases arg)
         (auto simp: ValueHeader_constructor_def Let_def set_value_def update_svalue_def
            RawHeader_constructor_def dest: parse_error split: sum.splits prod.splits)
  qed
qed

lemma from_buffer_error: "from_buffer b = Inl e \<Longrightarrow> \<not> validation_error e"
proof -
  assume a: "from_buffer b = Inl e"
  have "e = TypeError \<or> e = RangeError \<or> e = Malformed_units \<or> e = String_parser_error"
  proof (cases "RawHeader_constructor b")
    case (Inl e')
    with a have "e' = e" by (simp add: from_buffer_def)
    with Inl show ?thesis by (auto dest: RawHeader_constructor_error)
  next
    case (Inr r)
    with a have "CommentHeader_constructor b JUndefined = Inl e
       \<or> ValueHeader_constructor b JUndefined JUndefined JUndefined = Inl e"
      by (cases "CommentHeader_constructor b JUndefined";
          cases "ValueHeader_constructor b JUndefined JUndefined JUndefined")
         (auto simp: from_buffer_def Let_def split: if_splits)
    then show ?thesis
      by (auto dest: CommentHeader_constructor_error ValueHeader_constructor_error)
  qed
  then show ?thesis by (auto simp: validation_error_def)
qed

lemma read_cards_error: "read_cards buf j hs = Inl e \<Longrightarrow> \<not> validation_error e"
proof (induction buf j hs rule: read_cards.induct)
  case (1 buf j hs)
  from "1.prems" have eq:
    "(if j < blockSize then
        (case from_buffer (JBuffer (subarray j (j + headerSize) buf)) of
           Inl e \<Rightarrow> Inl e
         | Inr h \<Rightarrow>
             if Header_keyword h = ''END'' then Inr (hs @ [h], True)
             else read_cards buf (j + headerSize) (hs @ [h]))
      else Inr (hs, False)) = Inl e"
    by (subst (asm) read_cards.simps)
  then have j: "j < blockSize" by (simp split: if_splits)
  show ?case
  proof (cases "from_buffer (JBuffer (subarray j (j + headerSize) buf))")
    case (Inl e')
    with eq j have "e' = e" by simp
    with Inl show ?thesis by (auto dest: from_buffer_error)
  next
    case (Inr h)
    with eq j have ne: "Header_keyword h \<noteq> ''END''"
      and r: "read_cards buf (j + headerSize) (hs @ [h]) = Inl e"
      by (simp_all split: if_splits)
    from "1.IH" [OF j Inr ne r] show ?thesis .
  qed
qed

lemma block_error: "block fs self i = Inl e \<Longrightarrow> e = RangeError \<or> e = Short_read"
  by (simp add: block_def Let_def split: if_splits)

lemma read_headers_error: "read_headers fs self it hs = Inl e \<Longrightarrow> \<not> validation_error e"
proof (induction fs self it hs rule: read_headers.induct)
  case (1 fs self it hs)
  from "1.prems" have eq:
    "(case cursor_next fs self it of
        Inl e \<Rightarrow> Inl e
      | Inr (None, it') \<Rightarrow> Inl TypeError
      | Inr (Some buf, it') \<Rightarrow>
          (case read_cards buf 0 hs of
             Inl e \<Rightarrow> Inl e
           | Inr (hs', True) \<Rightarrow> Inr (hs', it')
           | Inr (hs', False) \<Rightarrow> read_headers fs self it' hs')) = Inl e"
    by (subst (asm) read_headers.simps)
  show ?case
  proof (cases "cursor_next fs self it")
    case (Inl e')
    with eq have "e' = e" by simp
    with Inl have "block fs self (int (cur_n it)) = Inl e"
      by (auto simp: cursor_next_def split: if_splits sum.splits)
    from block_error [OF this] show ?thesis by (auto simp: validation_error_def)
  next
    case (Inr p)
    obtain v it1 where p: "p = (v, it1)" by (cases p)
    show ?thesis
    proof (cases v)
      case None
      with eq Inr p show ?thesis by (auto simp: validation_error_def)
    next
      case (Some buf)
      note n = Inr [unfolded p Some]
      show ?thesis
      proof (cases "read_cards buf 0 hs")
        case (Inl e')
        with eq n have "e' = e" by simp
        with Inl show ?thesis by (auto dest: read_cards_error)
      next
        case r: (Inr q)
        obtain hs1 b where q: "q = (hs1, b)" by (cases q)
        with eq n r have b: "\<not> b" and rh: "read_headers fs self it1 hs1 = Inl e"
          by (cases b; simp)+
        from r q b have r': "read_cards buf 0 hs = Inr (hs1, False)" by simp
        from "1.IH" [OF n refl refl r' refl refl rh] show ?thesis .
      qed
    qed
  qed
qed

lemma naxis_loop_error: "naxis_loop hs nv i sz = Inl e \<Longrightarrow> e = TypeError"
proof (induction hs nv i sz rule: naxis_loop.induct)
  case (1 hs nv i sz)
  from "1.prems" have eq:
    "(if num_le (Fin (of_nat i)) nv then
        (case find_header (''NAXIS'' @ dec i) hs of
           None \<Rightarrow> Inl TypeError
         | Some h \<Rightarrow> naxis_loop hs nv (Suc i) (num_mult sz (ToNumber (Header_value_of h))))
      else Inr sz) = Inl e"
    by (subst (asm) naxis_loop.simps)
  then have le: "num_le (Fin (of_nat i)) nv" by (simp split: if_splits)
  show ?case
  proof (cases "find_header (''NAXIS'' @ dec i) hs")
    case None
    with eq le show ?thesis by simp
  next
    case (Some h)
    with eq le have "naxis_loop hs nv (Suc i) (num_mult sz (ToNumber (Header_value_of h))) = Inl e"
      by simp
    from "1.IH" [OF le Some this] show ?thesis .
  qed
qed

lemma cursor_skip_error: "cursor_skip c it = Inl e \<Longrightarrow> e = TypeError \<or> e = RangeError"
  by (cases c) (auto simp: cursor_skip_def split: if_splits)

lemma HDU_constructor_error: "HDU_constructor fs self it = Inl e \<Longrightarrow> \<not> validation_error e"
proof -
  assume a: "HDU_constructor fs self it = Inl e"
  show ?thesis
  proof (cases "read_headers fs self it []")
    case (Inl e')
    with a have "e' = e" by (simp add: HDU_constructor_def)
    with Inl show ?thesis by (auto dest: read_headers_error)
  next
    case (Inr p)
    with a have "e = TypeError \<or> (\<exists>hs nv i sz. naxis_loop hs nv i sz = Inl e)
        \<or> (\<exists>c it1. cursor_skip c it1 = Inl e)"
      by (auto simp: HDU_constructor_def Let_def split: prod.splits option.splits if_splits sum.splits)
    then show ?thesis
      by (auto simp: validation_error_def dest: naxis_loop_error cursor_skip_error)
  qed
qed

lemma hdu_loop_error: "hdu_loop fs self it hdus = Inl e \<Longrightarrow> \<not> validation_error e"
proof (induction fs self it hdus rule: hdu_loop.induct)
  case (1 fs self it hdus)
  from "1.prems" have eq:
    "(if cursor_done it then Inr hdus
      else
        (case HDU_constructor fs self it of
           Inl e \<Rightarrow> Inl e
         | Inr (hdu, it') \<Rightarrow> hdu_loop fs self it' (hdus @ [hdu]))) = Inl e"
    by (subst (asm) hdu_loop.simps)
  then have nd: "\<not> cursor_done it" by (simp split: if_splits)
  show ?case
  proof (cases "HDU_constructor fs self it")
    case (Inl e')
    with eq nd have "e' = e" by simp
    with Inl show ?thesis by (auto dest: HDU_constructor_error)
  next
    case (Inr p)
    obtain hdu it1 where p: "p = (hdu, it1)" by (cases p)
    with eq nd Inr have "hdu_loop fs self it1 (hdus @ [hdu]) = Inl e" by simp
    from "1.IH" [OF nd Inr [unfolded p] refl this] show ?thesis .
  qed
qed

lemma openSync_existing:
  "fs_files fs path = Some bytes \<Longrightarrow>
   openSync path fs = (Inr (length (fs_fds fs)), fs\<lparr>fs_fds := fs_fds fs @ [Some path]\<rparr>)"
  by (simp add: openSync_def)

lemma fstat_opened:
  "fs_files fs path = Some bytes \<Longrightarrow>
   fstat_size (fs\<lparr>fs_fds := fs_fds fs @ [Some path]\<rparr>) (length (fs_fds fs)) = length bytes"
  by (simp add: fstat_size_def fd_bytes_def)

text \<open>
  C4: for a device of size zero the constructor fails with the empty-file error, for a
  size that is not a multiple of 2880 with the incomplete-blocks error, and the outcome
  is then no File; for a size that is a positive multiple of 2880 no failure of the
  constructor is one of these two errors.
\<close>

theorem file_size_validation:
  assumes f: "fs_files fs path = Some bytes"
  shows "(length bytes = 0 \<longrightarrow> fst (File_constructor path fs) = Inl Empty_file)
     \<and> (length bytes \<noteq> 0 \<and> length bytes mod blockSize \<noteq> 0 \<longrightarrow>
           fst (File_constructor path fs) = Inl Incomplete_blocks)
     \<and> (0 < length bytes \<and> length bytes mod blockSize = 0 \<longrightarrow>
           (\<forall>e. fst (File_constructor path fs) = Inl e \<longrightarrow> \<not> validation_error e))"
proof (intro conjI impI allI)
  assume "length bytes = 0"
  then show "fst (File_constructor path fs) = Inl Empty_file"
    using f by (simp add: File_constructor_def openSync_existing [OF f] fstat_opened [OF f])
next
  assume "length bytes \<noteq> 0 \<and> length bytes mod blockSize \<noteq> 0"
  then show "fst (File_constructor path fs) = Inl Incomplete_blocks"
    by (simp add: File_constructor_def openSync_existing [OF f] fstat_opened [OF f])
next
  fix e
  assume s: "0 < length bytes \<and> length bytes mod blockSize = 0"
    and e: "fst (File_constructor path fs) = Inl e"
  then obtain fs1 self it where "hdu_loop fs1 self it [] = Inl e"
    by (auto simp: File_constructor_def openSync_existing [OF f] fstat_opened [OF f] Let_def
        split: sum.splits)
  then show "\<not> validation_error e" by (rule hdu_loop_error)
qed

text \<open>
  C7, amended: the constructor never closes the descriptor it opens. On every exit
  path, the failures of validation and of parsing included, the file system is left
  with the descriptor open on the path.
\<close>

theorem handle_stays_open:
  assumes f: "fs_files fs path = Some bytes"
  shows "snd (File_constructor path fs) = fs\<lparr>fs_fds := fs_fds fs @ [Some path]\<rparr>
     \<and> is_open (snd (File_constructor path fs)) (length (fs_fds fs))"
proof -
  have "snd (File_constructor path fs) = fs\<lparr>fs_fds := fs_fds fs @ [Some path]\<rparr>"
    by (simp add: File_constructor_def openSync_existing [OF f] Let_def split: sum.splits)
  then show ?thesis by (simp add: is_open_def)
qed

subsection \<open>Files that fail to open\<close>

text \<open>The file system before \<open>image.fits\<close> is opened, and a file of one block whose
  first card has a text value without its closing apostrophe.\<close>

definition unopened :: "string \<Rightarrow> fs_state" where
  "unopened bytes = \<lparr>fs_files = (\<lambda>p. if p = ''image.fits'' then Some bytes else None), fs_fds = []\<rparr>"

definition card_unterminated :: string where
  "card_unterminated = ''OBJECT  = '' @ [QUOTE] @ ''M31                                                                  ''"

definition unterminated_file :: string where
  "unterminated_file = card_unterminated @ replicate 2800 (CHR '' '')"

lemma length_card_unterminated: "length card_unterminated = 80"
  by (simp add: card_unterminated_def)

lemma length_unterminated_file: "length unterminated_file = 2880"
  by (simp add: unterminated_file_def length_card_unterminated)

lemma decode_unterminated: "from_buffer (JBuffer card_unterminated) = Inl String_parser_error"
  by (simp add: card_unterminated_def codec_defs parse_string_def SLASH_def endsWith_def)

lemma open_unopened: "openSync ''image.fits'' (unopened bytes) = (Inr 0, opened bytes)"
  by (simp add: openSync_def unopened_def opened_def)

lemma fstat_opened_0: "fstat_size (opened bytes) 0 = length bytes"
  by (simp add: fstat_size_def fd_bytes_def opened_def)

lemma File_unterminated:
  "File_constructor ''image.fits'' (unopened unterminated_file)
     = (Inl String_parser_error, opened unterminated_file)"
proof -
  have b: "block (opened unterminated_file) (self_of 1) 0 = Inr (Some unterminated_file)"
    by (simp add: block_def opened_def self_of_def readSync_def fd_bytes_def blockSize_def
        length_unterminated_file)
  have s: "subarray 0 headerSize unterminated_file = card_unterminated"
    by (simp add: subarray_def headerSize_def unterminated_file_def length_card_unterminated)
  have rc: "read_cards unterminated_file 0 [] = Inl String_parser_error"
    by (subst read_cards.simps) (simp add: s decode_unterminated blockSize_def)
  have rh: "read_headers (opened unterminated_file) (self_of 1) (blocks (self_of 1)) []
      = Inl String_parser_error"
    using b
    by (subst read_headers.simps)
       (simp add: cursor_next_def cursor_done_def blocks_def block_iterator_def self_of_def rc)
  have h: "HDU_constructor (opened unterminated_file) (self_of 1) (blocks (self_of 1))
      = Inl String_parser_error"
    unfolding HDU_constructor_def rh by simp
  have nd: "\<not> cursor_done (blocks (self_of 1))"
    by (simp add: cursor_done_def blocks_def block_iterator_def self_of_def)
  have l: "hdu_loop (opened unterminated_file) (self_of 1) (blocks (self_of 1)) []
      = Inl String_parser_error"
    by (subst hdu_loop.simps) (simp only: nd h if_False sum.case)
  have self: "\<lparr>p_fd = 0, p_blockCount = length unterminated_file div blockSize, p_hdus = []\<rparr> = self_of 1"
    by (simp add: self_of_def length_unterminated_file blockSize_def)
  show ?thesis
    unfolding File_constructor_def open_unopened prod.case sum.case fstat_opened_0 Let_def self l
    by (simp add: length_unterminated_file blockSize_def)
qed

text \<open>C4, witness: the empty file, a file of 100 bytes, and the file of one block that
  fails later, in the decoding of its first card.\<close>

theorem file_size_validation_witness:
  "fst (File_constructor ''image.fits'' (unopened [])) = Inl Empty_file
   \<and> fst (File_constructor ''image.fits'' (unopened (replicate 100 (CHR '' '')))) = Inl Incomplete_blocks
   \<and> fst (File_constructor ''image.fits'' (unopened unterminated_file)) = Inl String_parser_error
   \<and> \<not> validation_error String_parser_error"
proof -
  have f: "\<And>bytes. fs_files (unopened bytes) ''image.fits'' = Some bytes"
    by (simp add: unopened_def)
  from file_size_validation [OF f [of "[]"]]
  have a: "fst (File_constructor ''image.fits'' (unopened [])) = Inl Empty_file" by simp
  from file_size_validation [OF f [of "replicate 100 (CHR '' '')"]]
  have b: "fst (File_constructor ''image.fits'' (unopened (replicate 100 (CHR '' '')))) = Inl Incomplete_blocks"
    by (simp add: blockSize_def)
  have c: "fst (File_constructor ''image.fits'' (unopened unterminated_file)) = Inl String_parser_error"
    by (simp add: File_unterminated)
  from file_size_validation [OF f [of unterminated_file]] c
  have d: "\<not> validation_error String_parser_error"
    by (simp add: length_unterminated_file blockSize_def)
  from a b c d show ?thesis by simp
qed

text \<open>
  C7, as the specification states it, fails: the constructor that fails on the empty
  file leaves the descriptor it opened open. Nothing in file.mjs closes the descriptor
  of a File, on any path.
\<close>

theorem handle_left_open_on_failure:
  "fst (File_constructor ''image.fits'' (unopened [])) = Inl Empty_file
   \<and> is_open (snd (File_constructor ''image.fits'' (unopened []))) 0"
proof -
  have "File_constructor ''image.fits'' (unopened []) = (Inl Empty_file, opened [])"
    by (simp add: File_constructor_def open_unopened fstat_opened_0)
  then show ?thesis by (simp add: is_open_def opened_def)
qed

text \<open>C7, witness: the file whose first card fails to decode.\<close>

theorem handle_stays_open_witness:
  "fs_files (unopened unterminated_file) ''image.fits'' = Some unterminated_file
   \<and> fst (File_constructor ''image.fits'' (unopened unterminated_file)) = Inl String_parser_error
   \<and> is_open (snd (File_constructor ''image.fits'' (unopened unterminated_file))) 0"
proof -
  have f: "fs_files (unopened unterminated_file) ''image.fits'' = Some unterminated_file"
    by (simp add: unopened_def)
  have z: "length (fs_fds (unopened unterminated_file)) = 0"
    by (simp add: unopened_def)
  from handle_stays_open [OF f, THEN conjunct2]
  have "is_open (snd (File_constructor ''image.fits'' (unopened unterminated_file)))
          (length (fs_fds (unopened unterminated_file)))" .
  then have "is_open (snd (File_constructor ''image.fits'' (unopened unterminated_file))) 0"
    by (simp only: z)
  with f File_unterminated show ?thesis by simp
qed

section \<open>The modified flag of a card\<close>

text \<open>
  What a caller can do to a card that changes it: assign \<open>value\<close>, \<open>units\<close> or \<open>comment\<close>
  of a Value card, assign \<open>text\<close> of a Comment card, and call \<open>toString()\<close> (which
  re-encodes a Value card that is dirty). The keyword is written by the constructor
  alone. An assignment to a property that the card's class does not define makes an
  ordinary property and leaves the fields of the card as they are. \<open>invoke\<close> gives the
  outcome of one such use and the card after it, \<open>invoke_all\<close> the card after a
  sequence of them, whatever their outcomes.
\<close>

datatype card_op =
    Set_value jsvalue
  | Set_units jsvalue
  | Set_comment jsvalue
  | Set_text jsvalue
  | To_string

definition defines_setter :: "card_op \<Rightarrow> Header \<Rightarrow> bool" where
  "defines_setter op h =
     (case (op, h) of
        (Set_value _, Value _) \<Rightarrow> True
      | (Set_units _, Value _) \<Rightarrow> True
      | (Set_comment _, Value _) \<Rightarrow> True
      | (Set_text _, Comment _) \<Rightarrow> True
      | _ \<Rightarrow> False)"

definition invoke :: "card_op \<Rightarrow> Header \<Rightarrow> (error + unit) \<times> Header" where
  "invoke op h =
     (case (op, h) of
        (Set_value a, Value v) \<Rightarrow> (case set_value a v of (r, v') \<Rightarrow> (r, Value v'))
      | (Set_units a, Value v) \<Rightarrow> (case set_units a v of (r, v') \<Rightarrow> (r, Value v'))
      | (Set_comment a, Value v) \<Rightarrow> (case set_comment a v of (r, v') \<Rightarrow> (r, Value v'))
      | (Set_text a, Comment c) \<Rightarrow> (case set_text a c of (r, c') \<Rightarrow> (r, Comment c'))
      | (To_string, _) \<Rightarrow> (case Header_toString h of (r, h') \<Rightarrow> (map_sum id (\<lambda>_. ()) r, h'))
      | _ \<Rightarrow> (Inr (), h))"

definition invoke_all :: "card_op list \<Rightarrow> Header \<Rightarrow> Header" where
  "invoke_all ops h = foldl (\<lambda>c op. snd (invoke op c)) h ops"

lemma ascii7_id: "is_ascii c \<Longrightarrow> ascii7 c = c"
  by (cases c) (simp add: is_ascii_def ascii7_def)

lemma Buffer_toString_ascii: "list_all is_ascii b \<Longrightarrow> Buffer_toString b = b"
  by (induction b) (simp_all add: Buffer_toString_def ascii7_id)

lemma parse_frame:
  assumes "parse h = Inr v"
  shows "p_buffer v = p_buffer h \<and> p_modified v = p_modified h \<and> p_dirty v = p_dirty h"
  using assms
  by (auto simp: parse_def parse_string_def Let_def split: if_splits sum.splits prod.splits)

lemma from_buffer_fresh:
  assumes "from_buffer (JBuffer b) = Inr h"
  shows "Header_buffer h = b \<and> \<not> Header_modified h
     \<and> (case h of Value v \<Rightarrow> \<not> p_dirty v | _ \<Rightarrow> True)"
proof (cases h)
  case (Raw r)
  with assms have "r = \<lparr>p_buffer = b, p_modified = False\<rparr>"
    by (auto simp: from_buffer_def RawHeader_constructor_def CommentHeader_constructor_def
        Let_def map_sum_id_Inr split: if_splits)
  with Raw show ?thesis by (simp add: Header_buffer_def Header_modified_def RawHeader_modified_def)
next
  case (Comment r)
  with assms have "r = \<lparr>p_buffer = b, p_modified = False\<rparr>"
    by (auto simp: from_buffer_def RawHeader_constructor_def CommentHeader_constructor_def
        Let_def map_sum_id_Inr split: if_splits)
  with Comment show ?thesis by (simp add: Header_buffer_def Header_modified_def RawHeader_modified_def)
next
  case (Value v)
  with assms have "parse \<lparr>p_buffer = b, p_modified = False, p_value = JUndefined, p_svalue = None,
          p_units = None, p_comment = None, p_dirty = False\<rparr> = Inr v"
    by (auto simp: from_buffer_def RawHeader_constructor_def CommentHeader_constructor_def
        ValueHeader_constructor_def extend_raw Let_def map_sum_id_Inr split: if_splits)
  from parse_frame [OF this] Value show ?thesis
    by (simp add: Header_buffer_def Header_modified_def ValueHeader_modified_def RawHeader_modified_def)
qed

lemma toString_fresh:
  assumes "from_buffer (JBuffer b) = Inr h" and "length b = 80"
  shows "Header_toString h = (Inr (Buffer_toString b), h)"
proof -
  note f = from_buffer_fresh [OF assms(1)]
  show ?thesis
  proof (cases h)
    case (Value v)
    with f have "p_buffer v = b" "\<not> p_dirty v" by (simp_all add: Header_buffer_def)
    with Value assms(2) show ?thesis
      by (simp add: Header_toString_def ValueHeader_toString_def RawHeader_toString_def
          RawHeader_substring_def subarray_def headerSize_def)
  next
    case (Raw r)
    with f assms(2) show ?thesis
      by (simp add: Header_toString_def RawHeader_toString_def Header_buffer_def
          RawHeader_substring_def subarray_def headerSize_def)
  next
    case (Comment r)
    with f assms(2) show ?thesis
      by (simp add: Header_toString_def RawHeader_toString_def Header_buffer_def
          RawHeader_substring_def subarray_def headerSize_def)
  qed
qed

lemma RawHeader_write_modified: "p_modified (snd (RawHeader_write data offset len h))"
  by (simp add: RawHeader_write_def Let_def split: sum.splits prod.splits)

lemma update_svalue_frame:
  "p_modified (snd (update_svalue h)) = p_modified h \<and> (p_dirty h \<longrightarrow> p_dirty (snd (update_svalue h)))
   \<and> (fst (update_svalue h) = Inr () \<longrightarrow> p_dirty (snd (update_svalue h)))"
  by (cases "p_value h") (simp_all add: update_svalue_def)

lemma update_modified: "p_dirty h \<or> p_modified h \<Longrightarrow> ValueHeader_modified (snd (update h))"
proof -
  assume m: "p_dirty h \<or> p_modified h"
  obtain r h1 where u: "update_svalue h = (r, h1)" by (cases "update_svalue h")
  from update_svalue_frame [of h] u m have h1: "p_dirty h1 \<or> p_modified h1" by auto
  show ?thesis
  proof (cases r)
    case (Inl e)
    with u h1 show ?thesis
      by (simp add: update_def ValueHeader_modified_def RawHeader_modified_def)
  next
    case (Inr x)
    obtain r2 h2 where w: "RawHeader_write (update_text h1) keySize (headerSize - keySize) h1 = (r2, h2)"
      by (cases "RawHeader_write (update_text h1) keySize (headerSize - keySize) h1")
    from RawHeader_write_modified [of "update_text h1" keySize "headerSize - keySize" h1] w
    have "p_modified h2" by simp
    with u Inr w show ?thesis
      by (cases r2) (simp_all add: update_def ValueHeader_modified_def RawHeader_modified_def)
  qed
qed

lemma ValueHeader_toString_modified:
  "ValueHeader_modified v \<Longrightarrow> ValueHeader_modified (snd (ValueHeader_toString v))"
proof -
  assume m: "ValueHeader_modified v"
  show ?thesis
  proof (cases "p_dirty v")
    case True
    then have "ValueHeader_modified (snd (update v))" by (simp add: update_modified)
    with True show ?thesis
      by (cases "update v") (auto simp: ValueHeader_toString_def split: sum.splits)
  next
    case False
    with m show ?thesis by (simp add: ValueHeader_toString_def)
  qed
qed

lemma set_value_modified:
  "ValueHeader_modified v \<Longrightarrow> ValueHeader_modified (snd (set_value a v))"
  using update_svalue_frame [of "v\<lparr>p_value := a\<rparr>"]
  by (auto simp: set_value_def ValueHeader_modified_def RawHeader_modified_def)

lemma set_units_modified:
  "ValueHeader_modified v \<Longrightarrow> ValueHeader_modified (snd (set_units a v))"
  by (cases a) (simp_all add: set_units_def ValueHeader_modified_def RawHeader_modified_def)

lemma set_comment_modified:
  "ValueHeader_modified v \<Longrightarrow> ValueHeader_modified (snd (set_comment a v))"
  by (cases a) (simp_all add: set_comment_def ValueHeader_modified_def RawHeader_modified_def)

lemma set_text_modified:
  "RawHeader_modified r \<Longrightarrow> RawHeader_modified (snd (set_text a r))"
proof (cases a)
  case (JStr t)
  assume "RawHeader_modified r"
  define w where "w = RawHeader_write (padEnd (headerSize - keySize) (substring 0 (headerSize - keySize) t))
     keySize (headerSize - keySize) r"
  have "p_modified (snd w)" unfolding w_def by (rule RawHeader_write_modified)
  with JStr show ?thesis
    by (cases w) (auto simp: set_text_def Let_def w_def [symmetric] RawHeader_modified_def
        split: sum.splits)
qed (simp_all add: set_text_def)

lemma update_svalue_ok: "update_svalue h = (Inr (), h') \<Longrightarrow> p_dirty h'"
  using update_svalue_frame [of h] by simp

lemma invoke_modified: "Header_modified h \<Longrightarrow> Header_modified (snd (invoke op h))"
proof (cases h)
  case (Raw r)
  assume "Header_modified h"
  with Raw show ?thesis
    by (cases op) (simp_all add: invoke_def Header_modified_def Header_toString_def)
next
  case (Comment r)
  assume m: "Header_modified h"
  show ?thesis
  proof (cases op)
    case (Set_text a)
    from m Comment have "RawHeader_modified (snd (set_text a r))"
      by (simp add: set_text_modified Header_modified_def)
    with Comment Set_text show ?thesis
      by (cases "set_text a r") (simp add: invoke_def Header_modified_def)
  next
    case (Set_value a)
    with m Comment show ?thesis by (simp add: invoke_def)
  next
    case (Set_units a)
    with m Comment show ?thesis by (simp add: invoke_def)
  next
    case (Set_comment a)
    with m Comment show ?thesis by (simp add: invoke_def)
  next
    case To_string
    with m Comment show ?thesis by (simp add: invoke_def Header_toString_def)
  qed
next
  case (Value v)
  assume m: "Header_modified h"
  with Value have mv: "ValueHeader_modified v" by (simp add: Header_modified_def)
  show ?thesis
  proof (cases op)
    case (Set_value a)
    with Value set_value_modified [OF mv, of a] show ?thesis
      by (cases "set_value a v") (simp add: invoke_def Header_modified_def)
  next
    case (Set_units a)
    with Value set_units_modified [OF mv, of a] show ?thesis
      by (cases "set_units a v") (simp add: invoke_def Header_modified_def)
  next
    case (Set_comment a)
    with Value set_comment_modified [OF mv, of a] show ?thesis
      by (cases "set_comment a v") (simp add: invoke_def Header_modified_def)
  next
    case (Set_text a)
    with Value m show ?thesis by (simp add: invoke_def)
  next
    case To_string
    with Value ValueHeader_toString_modified [OF mv] show ?thesis
      by (cases "ValueHeader_toString v") (simp add: invoke_def Header_modified_def Header_toString_def)
  qed
qed

lemma invoke_all_modified: "Header_modified h \<Longrightarrow> Header_modified (invoke_all ops h)"
  unfolding invoke_all_def
  by (induction ops arbitrary: h) (simp_all add: invoke_modified)

lemma setter_modifies:
  assumes "defines_setter op h" and "invoke op h = (Inr (), h')"
  shows "Header_modified h'"
proof (cases h)
  case (Value v)
  with assms show ?thesis
    by (cases op)
       (auto simp: defines_setter_def invoke_def set_value_def set_units_def set_comment_def
          Header_modified_def ValueHeader_modified_def
          split: prod.splits jsvalue.splits dest: update_svalue_ok)
next
  case (Comment r)
  with assms obtain a where op: "op = Set_text a" by (cases op) (simp_all add: defines_setter_def)
  with assms Comment obtain r' where s: "set_text a r = (Inr (), r')" and h': "h' = Comment r'"
    by (auto simp: invoke_def split: prod.splits)
  then obtain t where a: "a = JStr t" by (cases a) (simp_all add: set_text_def)
  define w where "w = RawHeader_write (padEnd (headerSize - keySize) (substring 0 (headerSize - keySize) t))
     keySize (headerSize - keySize) r"
  have m: "p_modified (snd w)" unfolding w_def by (rule RawHeader_write_modified)
  from s a have "r' = snd w"
    by (auto simp: set_text_def Let_def w_def [symmetric] split: prod.splits sum.splits)
  with m h' show ?thesis by (simp add: Header_modified_def RawHeader_modified_def)
next
  case (Raw r)
  with assms show ?thesis by (cases op) (simp_all add: defines_setter_def)
qed

lemma toString_unmodified: "\<not> Header_modified h \<Longrightarrow> snd (invoke To_string h) = h"
  by (cases h)
     (simp_all add: invoke_def Header_toString_def Header_modified_def ValueHeader_modified_def
        ValueHeader_toString_def)

text \<open>
  C9, amended: a card decoded from an 80-byte buffer reports \<open>modified\<close> false, and its
  \<open>toString()\<close> is the 80 bytes decoded as ASCII, each with its highest bit cleared:
  the original 80 characters exactly when every byte is 7-bit ASCII. \<open>toString()\<close>
  leaves an unmodified card as it is. After a setter of the card has been invoked and
  has returned, \<open>modified\<close> is true, and it stays true through every later use.
\<close>

theorem decoded_card_unmodified_until_set:
  "(from_buffer (JBuffer b) = Inr h \<and> length b = 80 \<longrightarrow>
      \<not> Header_modified h
      \<and> Header_toString h = (Inr (Buffer_toString b), h)
      \<and> (list_all is_ascii b \<longrightarrow> Header_toString h = (Inr b, h)))
   \<and> (\<not> Header_modified g \<longrightarrow> snd (invoke To_string g) = g)
   \<and> (defines_setter op g \<and> invoke op g = (Inr (), g') \<longrightarrow>
        Header_modified g' \<and> Header_modified (invoke_all ops g'))"
proof (intro conjI impI)
  assume a: "from_buffer (JBuffer b) = Inr h \<and> length b = 80"
  then show "\<not> Header_modified h" using from_buffer_fresh [of b h] by simp
  from a show t: "Header_toString h = (Inr (Buffer_toString b), h)"
    using toString_fresh [of b h] by simp
  assume "list_all is_ascii b"
  with t show "Header_toString h = (Inr b, h)" by (simp add: Buffer_toString_ascii)
next
  assume "\<not> Header_modified g"
  then show "snd (invoke To_string g) = g" by (rule toString_unmodified)
next
  assume a: "defines_setter op g \<and> invoke op g = (Inr (), g')"
  then show m: "Header_modified g'" using setter_modifies [of op g g'] by simp
  then show "Header_modified (invoke_all ops g')" by (rule invoke_all_modified)
qed

text \<open>A Comment card with the byte \<open>0xE9\<close> in its text.\<close>

definition latin1_card :: string where
  "latin1_card = ''COMMENT caf'' @ [CHR 0xE9] @ ''                                                                    ''"

text \<open>
  C9, as stated, fails on this card: it decodes, and its \<open>toString()\<close> has the letter
  \<open>i\<close> (\<open>0x69\<close>) where the buffer has the byte \<open>0xE9\<close>.
\<close>

theorem latin1_card_rendering:
  "length latin1_card = 80
   \<and> from_buffer (JBuffer latin1_card) = Inr (Comment \<lparr>p_buffer = latin1_card, p_modified = False\<rparr>)
   \<and> Header_toString (Comment \<lparr>p_buffer = latin1_card, p_modified = False\<rparr>)
       = (Inr ''COMMENT cafi                                                                    '',
          Comment \<lparr>p_buffer = latin1_card, p_modified = False\<rparr>)
   \<and> ''COMMENT cafi                                                                    '' \<noteq> latin1_card"
  by (simp add: latin1_card_def from_buffer_def RawHeader_constructor_def CommentHeader_constructor_def
      keyword_def RawHeader_substring_def subarray_def keySize_def headerSize_def Buffer_toString_def
      ascii7_def trimEnd_def is_ws_def Header_toString_def RawHeader_toString_def)

text \<open>C9, witness: the \<open>NAXIS\<close> card of the first file, and the assignment of its
  units.\<close>

theorem decoded_card_unmodified_until_set_witness:
  "from_buffer (JBuffer card_NAXIS0) = Inr (decoded_value card_NAXIS0 (JNum (Fin 0)) None None)
   \<and> \<not> Header_modified (decoded_value card_NAXIS0 (JNum (Fin 0)) None None)
   \<and> Header_toString (decoded_value card_NAXIS0 (JNum (Fin 0)) None None)
       = (Inr card_NAXIS0, decoded_value card_NAXIS0 (JNum (Fin 0)) None None)
   \<and> snd (invoke To_string (decoded_value card_NAXIS0 (JNum (Fin 0)) None None))
       = decoded_value card_NAXIS0 (JNum (Fin 0)) None None
   \<and> invoke (Set_units (JStr ''m'')) (decoded_value card_NAXIS0 (JNum (Fin 0)) None None)
       = (Inr (), Value \<lparr>p_buffer = card_NAXIS0, p_modified = False, p_value = JNum (Fin 0),
                          p_svalue = None, p_units = Some ''m'', p_comment = None, p_dirty = True\<rparr>)
   \<and> Header_modified (Value \<lparr>p_buffer = card_NAXIS0, p_modified = False, p_value = JNum (Fin 0),
                          p_svalue = None, p_units = Some ''m'', p_comment = None, p_dirty = True\<rparr>)
   \<and> Header_modified (invoke_all [To_string, Set_units JUndefined]
        (Value \<lparr>p_buffer = card_NAXIS0, p_modified = False, p_value = JNum (Fin 0),
                          p_svalue = None, p_units = Some ''m'', p_comment = None, p_dirty = True\<rparr>))"
proof -
  let ?h = "decoded_value card_NAXIS0 (JNum (Fin 0)) None None"
  let ?h' = "Value \<lparr>p_buffer = card_NAXIS0, p_modified = False, p_value = JNum (Fin 0),
                          p_svalue = None, p_units = Some ''m'', p_comment = None, p_dirty = True\<rparr>"
  have l: "length card_NAXIS0 = 80" by (rule length_cards)
  have a: "list_all is_ascii card_NAXIS0" by (simp add: card_NAXIS0_def is_ascii_def)
  have s: "defines_setter (Set_units (JStr ''m'')) ?h"
    by (simp add: defines_setter_def decoded_value_def)
  have i: "invoke (Set_units (JStr ''m'')) ?h = (Inr (), ?h')"
    by (simp add: invoke_def decoded_value_def set_units_def)
  from decoded_card_unmodified_until_set
    [of card_NAXIS0 ?h ?h "Set_units (JStr ''m'')" ?h' "[To_string, Set_units JUndefined]"]
    decode_NAXIS0 l a s i
  show ?thesis by (simp add: Buffer_toString_ascii)
qed

section \<open>The round trip of a Value card\<close>

subsection \<open>Characters\<close>

lemma is_ascii_iff: "is_ascii c \<longleftrightarrow> (of_char c :: nat) < 128"
  by (cases c) (auto simp: is_ascii_def)

lemma space_facts:
  "is_ws (CHR '' '')" "CHR '' '' \<noteq> QUOTE" "CHR '' '' \<noteq> SLASH" "is_ascii (CHR '' '')"
  by (simp_all add: is_ws_def QUOTE_def SLASH_def is_ascii_def)

lemma quote_facts: "\<not> is_ws QUOTE" "QUOTE \<noteq> SLASH" "is_ascii QUOTE"
  by (simp_all add: is_ws_def QUOTE_def SLASH_def is_ascii_def)

lemma is_digit_facts:
  assumes "is_digit c"
  shows "\<not> is_ws c" "c \<noteq> QUOTE" "is_ascii c" "c \<noteq> CHR ''+''" "c \<noteq> CHR ''-''"
    "c \<notin> {CHR ''x'', CHR ''X''}" "c \<notin> {CHR ''o'', CHR ''O''}" "c \<notin> {CHR ''b'', CHR ''B''}"
    "c \<noteq> CHR ''T''" "c \<noteq> CHR ''F''" "c \<noteq> CHR ''I''"
  using assms by (auto simp: is_digit_def is_ws_def QUOTE_def is_ascii_iff)

lemma digit_char_facts:
  assumes "d < 10"
  shows "is_digit (digit_char d)" "digit_val (digit_char d) = d"
  using assms by (simp_all add: is_digit_def digit_char_def digit_val_def)

subsection \<open>Trimming and padding\<close>

lemma trimStart_Cons: "\<not> is_ws c \<Longrightarrow> trimStart (c # s) = c # s"
  by (simp add: trimStart_def)

lemma trimStart_spaces: "trimStart (replicate n (CHR '' '') @ s) = trimStart s"
  by (induction n) (simp_all add: trimStart_def space_facts)

lemma trimStart_id: "s = [] \<or> \<not> is_ws (hd s) \<Longrightarrow> trimStart s = s"
  by (cases s) (auto simp: trimStart_def)

lemma trimEnd_snoc: "\<not> is_ws c \<Longrightarrow> trimEnd (s @ [c]) = s @ [c]"
  by (simp add: trimEnd_def)

lemma trimEnd_spaces: "trimEnd (s @ replicate n (CHR '' '')) = trimEnd s"
  by (simp add: trimEnd_def trimStart_spaces [unfolded trimStart_def])

lemma trimEnd_id: "s = [] \<or> \<not> is_ws (last s) \<Longrightarrow> trimEnd s = s"
  by (cases s rule: rev_cases) (auto simp: trimEnd_def)

lemma trimEnd_append: "t \<noteq> [] \<Longrightarrow> \<not> is_ws (last t) \<Longrightarrow> trimEnd (s @ t) = s @ t"
  using trimEnd_id [of "s @ t"] by simp

lemma trimStart_fixed: "trimStart s = s \<Longrightarrow> s = [] \<or> \<not> is_ws (hd s)"
proof (cases s)
  case (Cons a list)
  assume t: "trimStart s = s"
  show ?thesis
  proof (rule ccontr)
    assume "\<not> (s = [] \<or> \<not> is_ws (hd s))"
    with Cons t have "dropWhile is_ws list = a # list" by (simp add: trimStart_def)
    then have "length (dropWhile is_ws list) = Suc (length list)" by simp
    with length_dropWhile_le [of is_ws list] show False by simp
  qed
qed simp

lemma trimEnd_fixed: "trimEnd s = s \<Longrightarrow> s = [] \<or> \<not> is_ws (last s)"
proof -
  assume "trimEnd s = s"
  then have "rev (dropWhile is_ws (rev s)) = s" by (simp add: trimEnd_def)
  then have "dropWhile is_ws (rev s) = rev s" by (metis rev_rev_ident)
  then have "trimStart (rev s) = rev s" by (simp add: trimStart_def)
  from trimStart_fixed [OF this] show ?thesis by (auto simp: hd_rev)
qed

lemma length_padEnd: "length (padEnd n s) = max n (length s)"
  by (simp add: padEnd_def)

lemma length_padStart: "length (padStart n s) = max n (length s)"
  by (simp add: padStart_def)

subsection \<open>Decimal digits\<close>

lemma dec_digits: "list_all is_digit (dec n)"
proof (induction n rule: dec.induct)
  case (1 n)
  show ?case
  proof (cases "n < 10")
    case True
    then show ?thesis by (simp add: dec.simps [of n] digit_char_facts)
  next
    case False
    with "1.IH" show ?thesis by (simp add: dec.simps [of n] digit_char_facts)
  qed
qed

lemma dec_nonempty: "dec n \<noteq> []"
  using length_dec_pos [of n] by auto

lemma digits_value_snoc: "digits_value (s @ [c]) = 10 * digits_value s + digit_val c"
  by (simp add: digits_value_def)

lemma digits_value_dec: "digits_value (dec n) = n"
proof (induction n rule: dec.induct)
  case (1 n)
  show ?case
  proof (cases "n < 10")
    case True
    then show ?thesis by (simp add: dec.simps [of n] digits_value_def digit_char_facts)
  next
    case False
    with "1.IH" show ?thesis
      by (simp add: dec.simps [of n] digits_value_snoc digit_char_facts)
  qed
qed

lemma length_dec_le: "n < 10 ^ k \<Longrightarrow> 0 < k \<Longrightarrow> length (dec n) \<le> k"
proof (induction k arbitrary: n)
  case 0
  then show ?case by simp
next
  case (Suc k)
  show ?case
  proof (cases "n < 10")
    case True
    then show ?thesis by (simp add: dec.simps [of n])
  next
    case False
    then have k: "0 < k" using Suc.prems by (cases k) simp_all
    from Suc.prems have "n div 10 < 10 ^ k" by (simp add: less_mult_imp_div_less mult.commute)
    from Suc.IH [OF this k] False show ?thesis by (simp add: dec.simps [of n])
  qed
qed


subsection \<open>The text of an integer, and the number of that text\<close>

text \<open>The canonical text of an integer Number: its decimal digits, after a minus sign
  when it is negative.\<close>

definition int_text :: "int \<Rightarrow> string" where
  "int_text n = (if n < 0 then ''-'' @ dec (nat (- n)) else dec (nat n))"

lemma rat_toString_nat: "m < 10 ^ 21 \<Longrightarrow> rat_toString (of_nat m) = dec m"
proof -
  assume "m < 10 ^ 21"
  then have "(of_nat m :: rat) < of_nat (10 ^ 21)" by (simp only: of_nat_less_iff)
  then have "(of_nat m :: rat) < 10 ^ 21" by simp
  then show ?thesis by (simp add: rat_toString_def)
qed

lemma number_toString_int:
  assumes "\<bar>n\<bar> < 10 ^ 21"
  shows "number_toString (Fin (of_int n)) = int_text n"
proof (cases "n < 0")
  case True
  define m where "m = nat (- n)"
  from True have n: "n = - int m" by (simp add: m_def)
  from assms True have "m < 10 ^ 21" by (simp add: m_def nat_less_iff)
  from rat_toString_nat [OF this] True n show ?thesis
    by (simp add: number_toString_def int_text_def)
next
  case False
  define m where "m = nat n"
  from False have n: "n = int m" by (simp add: m_def)
  from assms False have "m < 10 ^ 21" by (simp add: m_def nat_less_iff)
  from rat_toString_nat [OF this] False n show ?thesis
    by (simp add: number_toString_def int_text_def)
qed

lemma list_all_hd: "list_all P s \<Longrightarrow> s \<noteq> [] \<Longrightarrow> P (hd s)"
  by (cases s) simp_all

lemma list_all_last: "list_all P s \<Longrightarrow> s \<noteq> [] \<Longrightarrow> P (last s)"
  by (cases s rule: rev_cases) simp_all

lemma takeWhile_all: "list_all P s \<Longrightarrow> takeWhile P s = s"
  by (induction s) simp_all

lemma dropWhile_all: "list_all P s \<Longrightarrow> dropWhile P s = []"
  by (induction s) simp_all

lemma trim_digits: "list_all is_digit s \<Longrightarrow> trim s = s"
proof -
  assume a: "list_all is_digit s"
  have e: "trimEnd s = s"
    using list_all_last [OF a] by (intro trimEnd_id) (auto dest: is_digit_facts)
  have "trimStart s = s"
    using list_all_hd [OF a] by (intro trimStart_id) (auto dest: is_digit_facts)
  with e show ?thesis by (simp add: trim_def)
qed

lemma parse_unsigned_digits:
  assumes a: "list_all is_digit s" and ne: "s \<noteq> []"
  shows "parse_unsigned_decimal s = Fin (of_nat (digits_value s))"
proof -
  from list_all_hd [OF a ne] have "hd s \<noteq> CHR ''I''" by (auto dest: is_digit_facts)
  with ne have inf: "s \<noteq> ''Infinity''" by auto
  show ?thesis
    using inf ne
    by (simp add: parse_unsigned_decimal_def takeWhile_all [OF a] dropWhile_all [OF a] Let_def
        parse_exponent_def pow10_def)
qed

lemma Number_js_digits:
  assumes a: "list_all is_digit s" and ne: "s \<noteq> []"
  shows "Number_js s = Fin (of_nat (digits_value s))"
proof -
  from ne obtain c u where s: "s = c # u" by (cases s) auto
  with a have c: "is_digit c" and u: "list_all is_digit u" by simp_all
  have r: "u \<noteq> [] \<Longrightarrow> hd u \<notin> {CHR ''x'', CHR ''X''} \<and> hd u \<notin> {CHR ''o'', CHR ''O''}
      \<and> hd u \<notin> {CHR ''b'', CHR ''B''}"
    using list_all_hd [OF u] is_digit_facts(6,7,8) by blast
  from is_digit_facts(4,5) [OF c] r show ?thesis
    unfolding Number_js_def trim_digits [OF a] Let_def
    by (simp only: s list.case) (auto simp: s [symmetric] parse_unsigned_digits [OF a ne])
qed

lemma Number_js_minus_digits:
  assumes a: "list_all is_digit s" and ne: "s \<noteq> []"
  shows "Number_js (CHR ''-'' # s) = Fin (- of_nat (digits_value s))"
proof -
  have e: "trimEnd (CHR ''-'' # s) = CHR ''-'' # s"
    using list_all_last [OF a ne] ne by (intro trimEnd_id) (auto dest: is_digit_facts)
  have "trim (CHR ''-'' # s) = CHR ''-'' # s"
    unfolding trim_def e by (simp add: trimStart_Cons is_ws_def)
  then show ?thesis
    by (simp add: Number_js_def parse_unsigned_digits [OF a ne] num_neg_def)
qed

lemma Number_js_int_text: "Number_js (int_text n) = Fin (of_int n)"
proof (cases "n < 0")
  case True
  then show ?thesis
    using Number_js_minus_digits [OF dec_digits dec_nonempty, of "nat (- n)"]
    by (simp add: int_text_def digits_value_dec)
next
  case False
  then show ?thesis
    using Number_js_digits [OF dec_digits dec_nonempty, of "nat n"]
    by (simp add: int_text_def digits_value_dec)
qed

lemma int_text_shape:
  "int_text n \<noteq> []" "\<not> is_ws (hd (int_text n))" "\<not> is_ws (last (int_text n))"
  "list_all is_ascii (int_text n)" "hd (int_text n) \<noteq> QUOTE"
  "int_text n \<noteq> ''T''" "int_text n \<noteq> ''F''"
proof -
  let ?d = "dec (nat \<bar>n\<bar>)"
  have d: "list_all is_digit ?d" "?d \<noteq> []" by (rule dec_digits, rule dec_nonempty)
  have t: "int_text n = ?d \<or> int_text n = CHR ''-'' # ?d"
    by (auto simp: int_text_def abs_if)
  from list_all_hd [OF d] have h: "is_digit (hd ?d)" .
  from list_all_last [OF d] have l: "is_digit (last ?d)" .
  have asc: "list_all is_ascii ?d"
    using d(1) by (auto simp: list_all_iff dest: is_digit_facts)
  show "int_text n \<noteq> []" using t d by auto
  show "\<not> is_ws (hd (int_text n))" using t h by (auto dest: is_digit_facts simp: is_ws_def)
  show "\<not> is_ws (last (int_text n))" using t l d by (auto dest: is_digit_facts)
  show "list_all is_ascii (int_text n)" using t asc by (auto simp: is_ascii_def)
  show "hd (int_text n) \<noteq> QUOTE" using t h by (auto dest: is_digit_facts simp: QUOTE_def)
  show "int_text n \<noteq> ''T''" using t h d by (cases ?d) (auto dest: is_digit_facts)
  show "int_text n \<noteq> ''F''" using t h d by (cases ?d) (auto dest: is_digit_facts)
qed

lemma length_int_text:
  assumes "\<bar>n\<bar> < 2 ^ 53"
  shows "length (int_text n) \<le> 17"
proof -
  from assms have "nat \<bar>n\<bar> < 10 ^ 16" by (simp add: nat_less_iff)
  from length_dec_le [OF this] have "length (dec (nat \<bar>n\<bar>)) \<le> 16" by simp
  then show ?thesis by (auto simp: int_text_def abs_if split: if_splits)
qed


subsection \<open>The commentary and its decoding\<close>

text \<open>The commentary that \<open>#update\<close> appends for the units \<open>u\<close> and the comment
  \<open>c\<close>, and the units and comments that decode to themselves: units that are not
  empty, hold no \<open>]\<close> and come with a comment; a comment without white space at
  either end that, when there are no units, does not start with \<open>[\<close>; both
  ASCII.\<close>

definition commentary_body :: "string option \<Rightarrow> string option \<Rightarrow> string" where
  "commentary_body u c =
     (case u of Some us \<Rightarrow> ''['' @ us @ ''] '' | None \<Rightarrow> [])
     @ (case c of Some cs \<Rightarrow> cs | None \<Rightarrow> [])"

definition commentary :: "string option \<Rightarrow> string option \<Rightarrow> string" where
  "commentary u c = (if u = None \<and> c = None then [] else '' / '' @ commentary_body u c)"

definition commentary_ok :: "string option \<Rightarrow> string option \<Rightarrow> bool" where
  "commentary_ok u c =
     ((case u of
         None \<Rightarrow> True
       | Some us \<Rightarrow> us \<noteq> [] \<and> CHR '']'' \<notin> set us \<and> list_all is_ascii us \<and> c \<noteq> None)
      \<and> (case c of
            None \<Rightarrow> True
          | Some cs \<Rightarrow> list_all is_ascii cs \<and> trimStart cs = cs \<and> trimEnd cs = cs
                       \<and> (u \<noteq> None \<or> \<not> startsWith (CHR ''['') cs)))"

lemma dropWhile_append_Cons:
  "dropWhile P (xs @ y # ys) = (if list_all P xs then dropWhile P (y # ys) else dropWhile P xs @ y # ys)"
  by (induction xs) simp_all

lemma trimEnd_mid: "\<not> is_ws c \<Longrightarrow> trimEnd (s @ c # t) = s @ c # trimEnd t"
proof -
  assume c: "\<not> is_ws c"
  have "dropWhile is_ws (rev t @ c # rev s)
      = (if list_all is_ws (rev t) then c # rev s else dropWhile is_ws (rev t) @ c # rev s)"
    using c by (simp add: dropWhile_append_Cons)
  moreover have "list_all is_ws (rev t) \<Longrightarrow> dropWhile is_ws (rev t) = []"
    by (rule dropWhile_all)
  ultimately show ?thesis by (auto simp: trimEnd_def)
qed

lemma index_from_append:
  "c \<notin> set xs \<Longrightarrow> index_from c (xs @ c # ys) k = int (k + length xs)"
  by (induction xs arbitrary: k) auto

lemma parse_comment_blank: "parse_comment (replicate p (CHR '' '')) = Inr (None, None)"
proof -
  have "trimEnd (replicate p (CHR '' '')) = []"
    using trimEnd_spaces [of "[]" p] by (simp add: trimEnd_def)
  then show ?thesis by (simp add: parse_comment_def trim_def trimStart_def startsWith_def)
qed

lemma trim_core:
  "trim (replicate a (CHR '' '') @ ''/ '' @ b @ replicate p (CHR '' ''))
     = CHR ''/'' # trimEnd (CHR '' '' # b)"
proof -
  let ?sp = "CHR '' ''"
  let ?x = "replicate a ?sp @ ''/ '' @ b @ replicate p ?sp"
  have sl: "\<not> is_ws (CHR ''/'')" by (simp add: is_ws_def)
  have "trimEnd ?x = replicate a ?sp @ CHR ''/'' # trimEnd (?sp # b @ replicate p ?sp)"
    using trimEnd_mid [OF sl, of "replicate a ?sp" "?sp # b @ replicate p ?sp"] by simp
  also have "trimEnd (?sp # b @ replicate p ?sp) = trimEnd (?sp # b)"
    using trimEnd_spaces [of "?sp # b" p] by simp
  finally have te: "trimEnd ?x = replicate a ?sp @ CHR ''/'' # trimEnd (?sp # b)" .
  show ?thesis
    unfolding trim_def te by (simp add: trimStart_spaces trimStart_Cons sl)
qed

lemma parse_comment_slash:
  "parse_comment (replicate a (CHR '' '') @ ''/ '' @ b @ replicate p (CHR '' ''))
     = (let s = trimStart (trimEnd (CHR '' '' # b))
        in if startsWith (CHR ''['') s then
             (let i = indexOf (CHR '']'') 1 s
              in if 1 < i then
                   Inr (Some (substring 1 (nat i) s), Some (trimStart (drop (nat i + 1) s)))
                 else Inl Malformed_units)
           else Inr (None, Some (trimStart s)))"
  unfolding parse_comment_def trim_core by (simp add: startsWith_def Let_def)

lemma parse_comment_core:
  assumes ok: "commentary_ok u c" and some: "u \<noteq> None \<or> c \<noteq> None"
  shows "parse_comment (replicate a (CHR '' '') @ ''/ '' @ commentary_body u c @ replicate p (CHR '' ''))
     = Inr (u, c)"
proof -
  let ?sp = "CHR '' ''"
  from ok some obtain cs where c: "c = Some cs"
    by (cases u; cases c) (auto simp: commentary_ok_def)
  with ok have cs: "list_all is_ascii cs" "trimStart cs = cs" "trimEnd cs = cs"
    by (simp_all add: commentary_ok_def split: option.splits)
  from trimEnd_fixed [OF cs(3)] have le: "cs = [] \<or> \<not> is_ws (last cs)" .
  show ?thesis
  proof (cases u)
    case None
    with ok c have nb: "\<not> startsWith (CHR ''['') cs" by (simp add: commentary_ok_def)
    have b: "commentary_body u c = cs" using None c by (simp add: commentary_body_def)
    have "trimStart (trimEnd (?sp # cs)) = cs"
    proof (cases "cs = []")
      case True
      then show ?thesis by (simp add: trimEnd_def trimStart_def space_facts)
    next
      case False
      with le have "trimEnd (?sp # cs) = ?sp # cs"
        using trimEnd_append [of cs "[?sp]"] by simp
      then show ?thesis
        using trimStart_spaces [of 1 cs] cs(2) by simp
    qed
    with nb cs(2) show ?thesis
      unfolding b parse_comment_slash Let_def
      by (simp add: None c)
  next
    case (Some us)
    with ok have us: "us \<noteq> []" "CHR '']'' \<notin> set us" by (simp_all add: commentary_ok_def)
    define r where "r = (if cs = [] then [] else ?sp # cs)"
    have b: "commentary_body u c = CHR ''['' # us @ CHR '']'' # ?sp # cs"
      using Some c by (simp add: commentary_body_def)
    have rb: "\<not> is_ws (CHR '']'')" by (simp add: is_ws_def)
    have lb: "\<not> is_ws (CHR ''['')" by (simp add: is_ws_def)
    have "trimEnd (?sp # cs) = r"
    proof (cases "cs = []")
      case True
      then show ?thesis by (simp add: r_def trimEnd_def space_facts)
    next
      case False
      with le show ?thesis using trimEnd_append [of cs "[?sp]"] by (simp add: r_def)
    qed
    then have "trimEnd (?sp # CHR ''['' # us @ CHR '']'' # ?sp # cs) = ?sp # CHR ''['' # us @ CHR '']'' # r"
      using trimEnd_mid [OF rb, of "?sp # CHR ''['' # us" "?sp # cs"] by simp
    then have s1: "trimStart (trimEnd (?sp # CHR ''['' # us @ CHR '']'' # ?sp # cs))
        = CHR ''['' # us @ CHR '']'' # r"
      using trimStart_spaces [of 1 "CHR ''['' # us @ CHR '']'' # r"]
      by (simp add: trimStart_Cons lb)
    have ix: "indexOf (CHR '']'') (Suc 0) (CHR ''['' # us @ CHR '']'' # r) = 1 + int (length us)"
      using index_from_append [OF us(2), of r 1] by (simp add: indexOf_def)
    have nn: "nat (1 + int (length us)) = Suc (length us)" by simp
    have su: "substring (Suc 0) (Suc (length us)) (CHR ''['' # us @ CHR '']'' # r) = us"
      by (simp add: substring_def Let_def min_def max_def)
    have tr': "trimStart r = cs"
      using trimStart_spaces [of 1 cs] cs(2) by (simp add: r_def trimStart_def)
    from us(1) show ?thesis
      unfolding b parse_comment_slash s1 Let_def
      by (simp add: startsWith_def ix nn su tr' Some c)
  qed
qed

lemma parse_comment_commentary:
  assumes ok: "commentary_ok u c"
  shows "parse_comment (commentary u c @ replicate p (CHR '' '')) = Inr (u, c)"
proof (cases "u = None \<and> c = None")
  case True
  then show ?thesis by (simp add: commentary_def parse_comment_blank)
next
  case False
  then have "u \<noteq> None \<or> c \<noteq> None" by simp
  from parse_comment_core [OF ok this, of 1 p] False show ?thesis
    by (auto simp: commentary_def)
qed

subsection \<open>The quoted text and its scan\<close>

definition quoted :: "string \<Rightarrow> string" where
  "quoted t = [QUOTE] @ padEnd 8 (double_quotes t) @ [QUOTE]"

lemma scan_spaces: "scan (replicate n (CHR '' '') @ rest) b off = scan rest b (off + n)"
  by (induction n arbitrary: off) (simp_all add: space_facts)

lemma scan_double_quotes:
  "scan (double_quotes t @ rest) True off = scan rest True (off + length (double_quotes t))"
  by (induction t arbitrary: off) simp_all

lemma length_quoted: "length (quoted t) = max 8 (length (double_quotes t)) + 2"
  by (simp add: quoted_def length_padEnd)

lemma scan_quoted:
  "scan (quoted t @ rest) False off = scan rest False (off + length (quoted t))"
proof -
  let ?m = "8 - length (double_quotes t)"
  have "scan (quoted t @ rest) False off
      = scan (double_quotes t @ replicate ?m (CHR '' '') @ QUOTE # rest) True (Suc off)"
    by (simp add: quoted_def padEnd_def)
  also have "\<dots> = scan (QUOTE # rest) True (Suc off + length (double_quotes t) + ?m)"
    by (simp only: scan_double_quotes scan_spaces)
  also have "\<dots> = scan rest False (off + length (quoted t))"
    by (simp add: length_quoted max_def)
  finally show ?thesis .
qed

lemma scan_stop:
  assumes "y = [] \<or> hd y = SLASH"
  shows "scan (replicate m (CHR '' '') @ y) False off = (False, off + m)"
proof -
  have "scan y False (off + m) = (False, off + m)"
    using assms not_sym [OF quote_facts(2)] by (cases y) auto
  then show ?thesis by (simp add: scan_spaces)
qed

lemma undouble_Cons: "c \<noteq> QUOTE \<Longrightarrow> undouble_quotes (c # s) = c # undouble_quotes s"
  by (cases s) simp_all

lemma undouble_spaces: "undouble_quotes (replicate n (CHR '' '')) = replicate n (CHR '' '')"
  by (induction n) (simp_all add: undouble_Cons space_facts)

lemma undouble_double:
  "undouble_quotes (double_quotes t @ replicate n (CHR '' '')) = t @ replicate n (CHR '' '')"
  by (induction t) (simp_all add: undouble_spaces undouble_Cons)

lemma ascii_double_quotes: "list_all is_ascii t \<Longrightarrow> list_all is_ascii (double_quotes t)"
  by (induction t) (simp_all add: quote_facts)

lemma ascii_spaces: "list_all is_ascii (replicate n (CHR '' ''))"
  by (simp add: list_all_iff space_facts)

lemma ascii_quoted: "list_all is_ascii t \<Longrightarrow> list_all is_ascii (quoted t)"
  by (simp add: quoted_def padEnd_def ascii_double_quotes ascii_spaces quote_facts)

lemma quoted_inner:
  "substring 1 (length (quoted t) - 1) (quoted t) = padEnd 8 (double_quotes t)"
  by (simp add: quoted_def substring_def Let_def min_def max_def)

lemma quoted_ends: "startsWith QUOTE (quoted t)" "endsWith QUOTE (quoted t)" "\<not> is_ws (last (quoted t))"
  by (simp_all add: quoted_def startsWith_def endsWith_def quote_facts)

lemma decode_inner:
  assumes "trimEnd t = t"
  shows "trimEnd (undouble_quotes (padEnd 8 (double_quotes t))) = t"
  using assms by (simp add: padEnd_def undouble_double trimEnd_spaces)

subsection \<open>What the constructor and \<open>toString\<close> write\<close>

text \<open>An optional text as an argument (\<open>undefined\<close> when absent), the eight bytes of
  the keyword, the value field of \<open>#update_svalue\<close>, and the 72 bytes of \<open>#update\<close>.\<close>

definition js_of :: "string option \<Rightarrow> jsvalue" where
  "js_of x = (case x of None \<Rightarrow> JUndefined | Some t \<Rightarrow> JStr t)"

definition keyword_field :: "string \<Rightarrow> string" where
  "keyword_field k = padEnd keySize (toUpperCase (substring 0 keySize k))"

definition svalue_text :: "jsvalue \<Rightarrow> string" where
  "svalue_text v =
     (case v of
        JBool b \<Rightarrow> padStart valueSize (if b then ''T'' else ''F'')
      | JNum x \<Rightarrow> padStart valueSize (number_toString x)
      | JStr t \<Rightarrow> padEnd valueSize (quoted t)
      | _ \<Rightarrow> [])"

definition encodable :: "jsvalue \<Rightarrow> bool" where
  "encodable v = (case v of JBool _ \<Rightarrow> True | JNum _ \<Rightarrow> True | JStr _ \<Rightarrow> True | _ \<Rightarrow> False)"

lemma length_keyword_field: "length (keyword_field k) = 8"
  by (simp add: keyword_field_def length_padEnd toUpperCase_def substring_def keySize_def Let_def)

lemma raw_built:
  "RawHeader_constructor (JStr k)
     = Inr \<lparr>p_buffer = keyword_field k @ replicate 72 (CHR '' ''), p_modified = True\<rparr>"
proof -
  have "set_keyword k \<lparr>p_buffer = replicate headerSize (CHR '' ''), p_modified = False\<rparr>
      = RawHeader_write (keyword_field k) 0 keySize
          \<lparr>p_buffer = replicate headerSize (CHR '' ''), p_modified = False\<rparr>"
    by (simp add: set_keyword_def keyword_field_def)
  also have "\<dots> = (Inr 8, \<lparr>p_buffer = keyword_field k @ replicate 72 (CHR '' ''), p_modified = True\<rparr>)"
    using length_keyword_field [of k]
    by (simp add: RawHeader_write_def Buffer_write_def headerSize_def keySize_def Let_def)
  finally show ?thesis by (simp add: RawHeader_constructor_def)
qed

lemma update_svalue_encodable:
  "encodable (p_value h) \<Longrightarrow>
   update_svalue h = (Inr (), h\<lparr>p_svalue := Some (svalue_text (p_value h)), p_dirty := True\<rparr>)"
  by (cases "p_value h")
     (simp_all add: update_svalue_def encodable_def svalue_text_def quoted_def)

lemma value_built:
  assumes "encodable v"
  shows "ValueHeader_constructor (JStr k) v (js_of u) (js_of c)
     = Inr \<lparr>p_buffer = keyword_field k @ replicate 72 (CHR '' ''), p_modified = True,
            p_value = v, p_svalue = Some (svalue_text v), p_units = u, p_comment = c,
            p_dirty = True\<rparr>"
proof -
  let ?h = "\<lparr>p_buffer = keyword_field k @ replicate 72 (CHR '' ''), p_modified = True,
            p_value = JUndefined, p_svalue = None, p_units = None, p_comment = None,
            p_dirty = False\<rparr>"
  have sv: "set_value v ?h = (Inr (), ?h\<lparr>p_value := v, p_svalue := Some (svalue_text v), p_dirty := True\<rparr>)"
    using update_svalue_encodable [of "?h\<lparr>p_value := v\<rparr>"] assms by (simp add: set_value_def)
  show ?thesis
    unfolding ValueHeader_constructor_def raw_built
    by (cases u; cases c) (simp_all add: extend_raw sv set_units_def set_comment_def js_of_def)
qed

definition card_text :: "jsvalue \<Rightarrow> string option \<Rightarrow> string option \<Rightarrow> string" where
  "card_text v u c = substring 0 72 (padEnd 72 (''= '' @ svalue_text v @ commentary u c))"

lemma length_card_text: "length (card_text v u c) = 72"
  by (simp add: card_text_def substring_def Let_def length_padEnd)

lemma update_text_built:
  "p_svalue h = Some (svalue_text v) \<Longrightarrow> p_units h = u \<Longrightarrow> p_comment h = c \<Longrightarrow>
   update_text h = card_text v u c"
  by (cases u; cases c)
     (simp_all add: update_text_def card_text_def commentary_def commentary_body_def
        headerSize_def keySize_def)

lemma toString_built:
  assumes "encodable v"
  shows "ValueHeader_toString
     \<lparr>p_buffer = keyword_field k @ replicate 72 (CHR '' ''), p_modified = True,
            p_value = v, p_svalue = Some (svalue_text v), p_units = u, p_comment = c,
            p_dirty = True\<rparr>
   = (Inr (Buffer_toString (keyword_field k @ card_text v u c)),
      \<lparr>p_buffer = keyword_field k @ card_text v u c, p_modified = True,
            p_value = v, p_svalue = Some (svalue_text v), p_units = u, p_comment = c,
            p_dirty = False\<rparr>)"
proof -
  let ?h = "\<lparr>p_buffer = keyword_field k @ replicate 72 (CHR '' ''), p_modified = True,
            p_value = v, p_svalue = Some (svalue_text v), p_units = u, p_comment = c,
            p_dirty = True\<rparr>"
  have us: "update_svalue ?h = (Inr (), ?h)"
    using update_svalue_encodable [of ?h] assms by simp
  have ut: "update_text ?h = card_text v u c"
    by (rule update_text_built) simp_all
  have w: "RawHeader_write (card_text v u c) keySize (headerSize - keySize) ?h
      = (Inr 72, ?h\<lparr>p_buffer := keyword_field k @ card_text v u c\<rparr>)"
    using length_keyword_field [of k] length_card_text [of v u c]
    by (simp add: RawHeader_write_def Buffer_write_def headerSize_def keySize_def Let_def)
  have u: "update ?h = (Inr (), ?h\<lparr>p_buffer := keyword_field k @ card_text v u c, p_dirty := False\<rparr>)"
    by (simp add: update_def us ut w)
  show ?thesis
    using length_keyword_field [of k] length_card_text [of v u c]
    by (simp add: ValueHeader_toString_def u RawHeader_toString_def RawHeader_substring_def
        subarray_def headerSize_def)
qed


subsection \<open>Decoding what was written\<close>

lemma parse_plain:
  assumes kf: "length kf = 8"
    and tok: "tok \<noteq> []" "\<not> is_ws (hd tok)" "hd tok \<noteq> QUOTE" "length tok \<le> 20"
    and asc: "list_all is_ascii tok" "list_all is_ascii rest"
    and len: "length rest = 50"
    and pc: "parse_comment rest = Inr (u, c)"
  shows "parse \<lparr>p_buffer = kf @ ''= '' @ padStart 20 tok @ rest, p_modified = False,
            p_value = JUndefined, p_svalue = None, p_units = None, p_comment = None,
            p_dirty = False\<rparr>
     = Inr \<lparr>p_buffer = kf @ ''= '' @ padStart 20 tok @ rest, p_modified = False,
            p_value = (if tok = ''T'' then JBool True else if tok = ''F'' then JBool False
                       else JNum (Number_js tok)),
            p_svalue = None, p_units = u, p_comment = c, p_dirty = False\<rparr>"
proof -
  let ?sv = "padStart 20 tok"
  let ?b = "kf @ ''= '' @ ?sv @ rest"
  have lsv: "length ?sv = 20" using tok(4) by (simp add: length_padStart)
  have a: "list_all is_ascii (?sv @ rest)"
    using asc by (simp add: padStart_def ascii_spaces)
  have content: "\<And>h :: ValueHeader. p_buffer h = ?b \<Longrightarrow>
      RawHeader_substring 10 headerSize h = ?sv @ rest"
    using kf lsv len Buffer_toString_ascii [OF a]
    by (simp add: RawHeader_substring_def subarray_def headerSize_def)
  have region: "\<And>h :: ValueHeader. p_buffer h = ?b \<Longrightarrow>
      RawHeader_substring 30 headerSize h = rest"
    using kf lsv len Buffer_toString_ascii [OF asc(2)]
    by (simp add: RawHeader_substring_def subarray_def headerSize_def)
  obtain x xs where t: "tok = x # xs" using tok(1) by (cases tok) auto
  with tok have x: "\<not> is_ws x" "x \<noteq> QUOTE" by simp_all
  have ts: "trimStart (?sv @ rest) = tok @ rest"
    using trimStart_spaces [of "20 - length tok" "tok @ rest"] x
    by (simp add: padStart_def t trimStart_Cons)
  have nq: "\<not> startsWith QUOTE (trimStart (?sv @ rest))"
    unfolding ts using x by (simp add: t startsWith_def)
  have sub: "substring 0 valueSize (?sv @ rest) = ?sv"
    using lsv by (simp add: substring_def Let_def valueSize_def min_def)
  have tv: "trimStart ?sv = tok"
    using trimStart_spaces [of "20 - length tok" tok] x
    by (simp add: padStart_def t trimStart_Cons)
  show ?thesis
    using nq
    by (simp add: parse_def Let_def keySize_def content region sub tv pc)
qed

lemma parse_quoted:
  assumes kf: "length kf = 8"
    and t: "list_all is_ascii t" "trimEnd t = t"
    and y: "y = [] \<or> hd y = SLASH" "list_all is_ascii y"
    and len: "length (quoted t @ replicate m (CHR '' '') @ y) = 70"
    and pc: "parse_comment y = Inr (u, c)"
  shows "parse \<lparr>p_buffer = kf @ ''= '' @ quoted t @ replicate m (CHR '' '') @ y, p_modified = False,
            p_value = JUndefined, p_svalue = None, p_units = None, p_comment = None,
            p_dirty = False\<rparr>
     = Inr \<lparr>p_buffer = kf @ ''= '' @ quoted t @ replicate m (CHR '' '') @ y, p_modified = False,
            p_value = JStr t, p_svalue = None, p_units = u, p_comment = c, p_dirty = False\<rparr>"
proof -
  let ?q = "quoted t"
  let ?d = "?q @ replicate m (CHR '' '') @ y"
  let ?b = "kf @ ''= '' @ ?d"
  have a: "list_all is_ascii ?d"
    using t(1) y(2) by (simp add: ascii_quoted ascii_spaces)
  have content: "\<And>h :: ValueHeader. p_buffer h = ?b \<Longrightarrow>
      RawHeader_substring 10 headerSize h = ?d"
    using kf len Buffer_toString_ascii [OF a]
    by (simp add: RawHeader_substring_def subarray_def headerSize_def)
  have q0: "?q = QUOTE # padEnd 8 (double_quotes t) @ [QUOTE]" by (simp add: quoted_def)
  have st: "startsWith QUOTE (trimStart ?d)"
    by (simp add: q0 trimStart_Cons quote_facts startsWith_def)
  have sc: "scan ?d False 0 = (False, length ?q + m)"
    using scan_quoted [of t "replicate m (CHR '' '') @ y" 0] scan_stop [OF y(1), of m "length ?q"]
    by simp
  have tk: "substring 0 (length ?q + m) ?d = ?q @ replicate m (CHR '' '')"
    by (simp add: substring_def Let_def min_def)
  have v: "trimEnd (?q @ replicate m (CHR '' '')) = ?q"
    using trimEnd_id [of ?q] quoted_ends(3) [of t] by (simp add: trimEnd_spaces)
  have dr: "drop (length ?q + m) ?d = y" by simp
  have inner: "trimEnd (undouble_quotes (substring (Suc 0) (length ?q - Suc 0) ?q)) = t"
    using quoted_inner [of t] decode_inner [OF t(2)] by simp
  show ?thesis
    using st quoted_ends(1,2) [of t]
    by (simp add: parse_def parse_string_def Let_def keySize_def content sc tk v dr inner pc
        del: append_assoc)
qed


subsection \<open>The round trip\<close>

text \<open>
  The values that decode to themselves: a boolean; a number that is an integer of
  magnitude below \<open>2\<^sup>5\<^sup>3\<close> (its text is then its decimal digits, and exact); an
  ASCII text without white space at its end. \<open>stored_keyword\<close> is the keyword that a card
  built with the keyword \<open>k\<close> answers.
\<close>

definition roundtrip_value :: "jsvalue \<Rightarrow> bool" where
  "roundtrip_value v =
     (case v of
        JBool _ \<Rightarrow> True
      | JNum x \<Rightarrow> (case x of Fin r \<Rightarrow> r = of_int \<lfloor>r\<rfloor> \<and> \<bar>r\<bar> < 2 ^ 53 | _ \<Rightarrow> False)
      | JStr t \<Rightarrow> list_all is_ascii t \<and> trimEnd t = t
      | _ \<Rightarrow> False)"

definition stored_keyword :: "string \<Rightarrow> string" where
  "stored_keyword k = trimEnd (Buffer_toString (keyword_field k))"

lemma ascii_commentary: "commentary_ok u c \<Longrightarrow> list_all is_ascii (commentary u c)"
  by (cases u; cases c)
     (simp_all add: commentary_ok_def commentary_def commentary_body_def is_ascii_def)

lemma card_text_fits:
  assumes "length (svalue_text v) + length (commentary u c) \<le> 70"
  shows "card_text v u c = ''= '' @ svalue_text v @ commentary u c
           @ replicate (70 - length (svalue_text v) - length (commentary u c)) (CHR '' '')"
  using assms by (simp add: card_text_def padEnd_def substring_def Let_def)

lemma decode_built:
  assumes kw: "stored_keyword k \<notin> {''COMMENT'', ''HISTORY''}"
    and v: "roundtrip_value v"
    and ok: "commentary_ok u c"
    and fit: "length (svalue_text v) + length (commentary u c) \<le> 70"
  shows "\<exists>h. from_buffer (JBuffer (keyword_field k @ card_text v u c)) = Inr (Value h)
     \<and> p_value h = v \<and> p_units h = u \<and> p_comment h = c"
proof -
  let ?kf = "keyword_field k"
  let ?sp = "CHR '' ''"
  let ?cm = "commentary u c"
  let ?sv = "svalue_text v"
  define p where "p = 70 - length ?sv - length ?cm"
  have ct: "card_text v u c = ''= '' @ ?sv @ ?cm @ replicate p ?sp"
    unfolding p_def by (rule card_text_fits [OF fit])
  have lk: "length ?kf = 8" by (rule length_keyword_field)
  from kw have kw': "trimEnd (Buffer_toString ?kf) \<notin> {''COMMENT'', ''HISTORY''}"
    by (simp add: stored_keyword_def)
  note fb = from_buffer_value_card [OF lk kw']
  have acm: "list_all is_ascii (?cm @ replicate p ?sp)"
    using ascii_commentary [OF ok] by (simp add: ascii_spaces)
  have pc: "parse_comment (?cm @ replicate p ?sp) = Inr (u, c)"
    by (rule parse_comment_commentary [OF ok])
  have plain: "\<exists>h. from_buffer (JBuffer (?kf @ card_text v u c)) = Inr (Value h)
     \<and> p_value h = (if tok = ''T'' then JBool True else if tok = ''F'' then JBool False
                       else JNum (Number_js tok))
     \<and> p_units h = u \<and> p_comment h = c"
    if sv: "?sv = padStart 20 tok" and tok: "tok \<noteq> []" "\<not> is_ws (hd tok)" "hd tok \<noteq> QUOTE"
      "length tok \<le> 20" "list_all is_ascii tok" for tok
  proof -
    have l20: "length ?sv = 20" using tok(4) by (simp add: sv length_padStart)
    with fit have lr: "length (?cm @ replicate p ?sp) = 50" by (simp add: p_def)
    from parse_plain [OF lk tok(1-5) acm lr pc] fb [of "padStart 20 tok @ ?cm @ replicate p ?sp"]
    show ?thesis by (simp add: ct sv)
  qed
  show ?thesis
  proof (cases v)
    case (JBool b)
    define tok where "tok = (if b then ''T'' else ''F'')"
    have sv: "?sv = padStart 20 tok" by (simp add: JBool svalue_text_def valueSize_def tok_def)
    have "tok \<noteq> []" "\<not> is_ws (hd tok)" "hd tok \<noteq> QUOTE" "length tok \<le> 20" "list_all is_ascii tok"
      by (simp_all add: tok_def is_ws_def QUOTE_def is_ascii_def)
    from plain [OF sv this] JBool show ?thesis by (auto simp: tok_def)
  next
    case (JNum x)
    with v obtain r where x: "x = Fin r" and r: "r = of_int \<lfloor>r\<rfloor>" "\<bar>r\<bar> < 2 ^ 53"
      by (cases x) (simp_all add: roundtrip_value_def)
    define n where "n = \<lfloor>r\<rfloor>"
    from r have rn: "r = of_int n" by (simp add: n_def)
    from r(2) rn have "\<bar>of_int n :: rat\<bar> < of_int (2 ^ 53)" by simp
    then have "(of_int \<bar>n\<bar> :: rat) < of_int (2 ^ 53)" by simp
    then have n53: "\<bar>n\<bar> < 2 ^ 53" by (simp only: of_int_less_iff)
    then have n21: "\<bar>n\<bar> < 10 ^ 21" by simp
    define tok where "tok = int_text n"
    have ts: "number_toString x = tok"
      unfolding x rn tok_def by (rule number_toString_int [OF n21])
    have sv: "?sv = padStart 20 tok" by (simp add: JNum svalue_text_def valueSize_def ts)
    have l: "length tok \<le> 20" using length_int_text [OF n53] by (simp add: tok_def)
    from plain [OF sv int_text_shape(1,2,5) [of n, folded tok_def] l
        int_text_shape(4) [of n, folded tok_def]]
      int_text_shape(6,7) [of n, folded tok_def] Number_js_int_text [of n, folded tok_def]
    show ?thesis by (auto simp: JNum x rn)
  next
    case (JStr t)
    with v have t: "list_all is_ascii t" "trimEnd t = t" by (simp_all add: roundtrip_value_def)
    define m0 where "m0 = 20 - length (quoted t)"
    have sv: "?sv = quoted t @ replicate m0 ?sp"
      by (simp add: JStr svalue_text_def valueSize_def padEnd_def m0_def)
    have l70: "length (?sv @ ?cm @ replicate p ?sp) = 70" using fit by (simp add: p_def)
    show ?thesis
    proof (cases "u = None \<and> c = None")
      case True
      then have cm: "?cm = []" by (simp add: commentary_def)
      have d: "?sv @ ?cm @ replicate p ?sp = quoted t @ replicate (m0 + p) ?sp @ []"
        by (simp add: sv cm replicate_add)
      have len: "length (quoted t @ replicate (m0 + p) ?sp @ []) = 70"
        using l70 unfolding d .
      have pc0: "parse_comment [] = Inr (u, c)"
        using parse_comment_blank [of 0] True by simp
      from parse_quoted [OF lk t _ _ len pc0] fb [of "quoted t @ replicate (m0 + p) ?sp @ []"]
      have "\<exists>h. from_buffer (JBuffer (?kf @ ''= '' @ quoted t @ replicate (m0 + p) ?sp)) = Inr (Value h)
          \<and> p_value h = JStr t \<and> p_units h = u \<and> p_comment h = c"
        by simp
      moreover have "card_text v u c = ''= '' @ quoted t @ replicate (m0 + p) ?sp"
        using ct d by simp
      ultimately show ?thesis by (simp add: JStr)
    next
      case False
      then have some: "u \<noteq> None \<or> c \<noteq> None" by simp
      let ?y = "''/ '' @ commentary_body u c @ replicate p ?sp"
      from False have cm: "?cm = ?sp # ''/ '' @ commentary_body u c" by (simp add: commentary_def)
      have d: "?sv @ ?cm @ replicate p ?sp = quoted t @ replicate (m0 + 1) ?sp @ ?y"
        by (simp add: sv cm replicate_append_same)
      have len: "length (quoted t @ replicate (m0 + 1) ?sp @ ?y) = 70"
        using l70 unfolding d .
      have y1: "?y = [] \<or> hd ?y = SLASH" by (simp add: SLASH_def)
      have y2: "list_all is_ascii ?y"
        using acm by (simp add: cm is_ascii_def)
      have pcy: "parse_comment ?y = Inr (u, c)"
        using parse_comment_core [OF ok some, of 0 p] by simp
      from parse_quoted [OF lk t y1 y2 len pcy] fb [of "quoted t @ replicate (m0 + 1) ?sp @ ?y"]
      have "\<exists>h. from_buffer (JBuffer (?kf @ ''= '' @ quoted t @ replicate (m0 + 1) ?sp @ ?y))
            = Inr (Value h)
          \<and> p_value h = JStr t \<and> p_units h = u \<and> p_comment h = c"
        by simp
      moreover have "card_text v u c = ''= '' @ quoted t @ replicate (m0 + 1) ?sp @ ?y"
        using ct d by simp
      ultimately show ?thesis by (simp add: JStr)
    qed
  qed (use v in \<open>simp_all add: roundtrip_value_def\<close>)
qed


text \<open>Build a Value card with \<open>Header.value\<close>, encode it with \<open>toString()\<close>, decode
  the 80 bytes of its buffer with \<open>from_buffer\<close>.\<close>

definition roundtrip :: "string \<Rightarrow> jsvalue \<Rightarrow> jsvalue \<Rightarrow> jsvalue \<Rightarrow> error + Header" where
  "roundtrip k v u c =
     (case Header_value (JStr k) v u c of
        Inl e \<Rightarrow> Inl e
      | Inr built \<Rightarrow>
          (case Header_toString built of
             (Inl e, _) \<Rightarrow> Inl e
           | (Inr s, built') \<Rightarrow> from_buffer (JBuffer (Header_buffer built'))))"

lemma roundtrip_encodable:
  assumes "encodable v"
  shows "roundtrip k v (js_of u) (js_of c) = from_buffer (JBuffer (keyword_field k @ card_text v u c))"
  by (simp add: roundtrip_def Header_value_def value_built [OF assms] Header_toString_def
      toString_built [OF assms] Header_buffer_def)

lemma built_keyword:
  assumes "encodable v"
  shows "\<exists>built. Header_value (JStr k) v (js_of u) (js_of c) = Inr built
            \<and> Header_keyword built = stored_keyword k"
  using length_keyword_field [of k]
  by (simp add: Header_value_def value_built [OF assms] Header_keyword_def stored_keyword_def
      keyword_def RawHeader_substring_def subarray_def keySize_def)

lemma roundtrip_value_encodable: "roundtrip_value v \<Longrightarrow> encodable v"
  by (cases v) (simp_all add: roundtrip_value_def encodable_def)

text \<open>
  C1, amended: a Value card built from an ASCII keyword other than \<open>COMMENT\<close> and
  \<open>HISTORY\<close>, a value that is a boolean, an integer of magnitude below \<open>2\<^sup>5\<^sup>3\<close> or an
  ASCII text without trailing white space, units that (when given) are ASCII, not
  empty, without \<open>]\<close> and accompanied by a comment, and a comment that (when given) is
  ASCII, has no white space at either end and, without units, does not start with
  \<open>[\<close>, all fitting in the 70 bytes after the value marker, is built and encoded
  without error, and the 80 bytes decode to a Value card with the same value, the same
  units and the same comment.
\<close>

theorem value_card_roundtrip:
  assumes "list_all is_ascii k"
    and "stored_keyword k \<notin> {''COMMENT'', ''HISTORY''}"
    and "roundtrip_value v"
    and "commentary_ok u c"
    and "length (svalue_text v) + length (commentary u c) \<le> 70"
  shows "(\<exists>built. Header_value (JStr k) v (js_of u) (js_of c) = Inr built
            \<and> Header_keyword built = stored_keyword k)
     \<and> (\<exists>h. roundtrip k v (js_of u) (js_of c) = Inr (Value h)
            \<and> p_value h = v \<and> p_units h = u \<and> p_comment h = c)"
proof
  from assms(3) have e: "encodable v" by (rule roundtrip_value_encodable)
  then show "\<exists>built. Header_value (JStr k) v (js_of u) (js_of c) = Inr built
            \<and> Header_keyword built = stored_keyword k"
    by (rule built_keyword)
  from decode_built [OF assms(2-5)] roundtrip_encodable [OF e, of k u c]
  show "\<exists>h. roundtrip k v (js_of u) (js_of c) = Inr (Value h)
            \<and> p_value h = v \<and> p_units h = u \<and> p_comment h = c"
    by simp
qed

subsection \<open>Cards that do not come back\<close>

lemma enc_exptime:
  "keyword_field ''EXPTIME'' @ card_text (JNum (Fin 30)) (Some ''s'') None
     = ''EXPTIME =                   30 / [s]                                            ''"
  by code_simp

lemma enc_object:
  "keyword_field ''OBJECT'' @ card_text (JStr ''M31 '') None None
     = ''OBJECT  = '' @ [QUOTE] @ ''M31     '' @ [QUOTE] @ ''                                                            ''"
  by code_simp

lemma enc_empty_units:
  "keyword_field ''EXPTIME'' @ card_text (JNum (Fin 30)) (Some []) (Some ''exposure'')
     = ''EXPTIME =                   30 / [] exposure                                    ''"
  by code_simp

lemma enc_comment_keyword:
  "keyword_field ''comment'' @ card_text (JBool True) None None
     = ''COMMENT =                    T                                                  ''"
  by code_simp

end
